theory Spec2Isabelle
  imports Main
begin

section \<open>The math engine of App.tsx\<close>

text \<open>
  The engine works on JavaScript numbers that hold integers. They are modelled as
  \<^typ>\<open>int\<close>; magnitudes (\<open>Math.abs(n)\<close>) as \<^typ>\<open>nat\<close>. On the safe integers
  (magnitude at most \<open>2^53 - 1\<close>) every operation the engine uses (\<open>+\<close>, \<open>-\<close>, \<open>*\<close>,
  \<open>%\<close>, exact \<open>/\<close>, comparisons) is exact, so the model and the program agree there.
  A read outside an array gives \<open>undefined\<close>, modelled as \<open>None\<close>; arithmetic on
  \<open>undefined\<close> gives \<open>NaN\<close>. A loop whose termination is not evident from its header
  is a \<^theory_text>\<open>partial_function\<close> in the option monad: \<open>None\<close> means that it does not
  return.
\<close>

subsection \<open>JavaScript values\<close>

datatype jsnum = Num int | NaN

datatype js_error = TypeError

text \<open>\<open>xs[i]\<close>: the element, or \<open>undefined\<close> outside the array.\<close>

definition js_index :: "'a list \<Rightarrow> int \<Rightarrow> 'a option" where
  "js_index xs i = (if 0 \<le> i \<and> i < int (length xs) then Some (xs ! nat i) else None)"

text \<open>\<open>xs[i]\<close> of a boolean array in a condition: \<open>undefined\<close> is falsy.\<close>

definition truthy_at :: "bool list \<Rightarrow> nat \<Rightarrow> bool" where
  "truthy_at xs i = (i < length xs \<and> xs ! i)"

text \<open>A function of numbers applied to a value that may be \<open>NaN\<close>: \<open>NaN\<close> propagates
  through \<open>+\<close>, \<open>-\<close>, \<open>Math.max\<close> and \<open>Math.min\<close>.\<close>

definition js_lift :: "(int \<Rightarrow> int) \<Rightarrow> jsnum \<Rightarrow> jsnum" where
  "js_lift f x = (case x of Num v \<Rightarrow> Num (f v) | NaN \<Rightarrow> NaN)"

subsection \<open>Constants and sieve tables\<close>

definition MAX_N :: nat where
  "MAX_N = 1680"

text \<open>The inner loop of the sieve: \<open>for (let j = i * i; j <= MAX_N; j += i) p[j] = false\<close>.\<close>

partial_function (option) cross_out :: "nat \<Rightarrow> nat \<Rightarrow> bool list \<Rightarrow> bool list option" where
  "cross_out i j p = (if j \<le> MAX_N then cross_out i (j + i) (p[j := False]) else Some p)"

text \<open>The outer loop: \<open>for (let i = 2; i * i <= MAX_N; i++) if (p[i]) ...\<close>.\<close>

partial_function (option) sieve_loop :: "nat \<Rightarrow> bool list \<Rightarrow> bool list option" where
  "sieve_loop i p =
     (if i * i \<le> MAX_N
      then Option.bind (if truthy_at p i then cross_out i (i * i) p else Some p)
             (\<lambda>p'. sieve_loop (i + 1) p')
      else Some p)"

text \<open>The initialiser of \<open>IS_PRIME\<close>: an array of \<open>MAX_N + 1\<close> times \<open>true\<close>,
  \<open>p[0] = p[1] = false\<close>, then the sieve.\<close>

definition IS_PRIME_init :: "bool list option" where
  "IS_PRIME_init = sieve_loop 2 ((replicate (MAX_N + 1) True)[1 := False, 0 := False])"

text \<open>The table itself is what the initialiser returns (it does return:
  lemma \<open>IS_PRIME_init_returns\<close> below).\<close>

definition IS_PRIME :: "bool list" where
  "IS_PRIME = (case IS_PRIME_init of Some p \<Rightarrow> p | None \<Rightarrow> [])"

text \<open>\<open>for (let i = 1; i <= MAX_N; i++) c[i] = c[i - 1] + (IS_PRIME[i] ? 1 : 0)\<close>;
  the loop starts at 1, so \<open>i - 1\<close> never goes below 0.\<close>

function count_loop :: "nat \<Rightarrow> nat list \<Rightarrow> nat list" where
  "count_loop i c =
     (if i \<le> MAX_N
      then count_loop (i + 1) (c[i := c ! (i - 1) + (if truthy_at IS_PRIME i then 1 else 0)])
      else c)"
  by pat_completeness auto
termination
  by (relation "measure (\<lambda>(i, c). MAX_N + 1 - i)") auto

declare count_loop.simps [simp del]

definition PRIME_COUNT :: "nat list" where
  "PRIME_COUNT = count_loop 1 (replicate (MAX_N + 1) 0)"

subsection \<open>Prime powers\<close>

text \<open>\<open>while (m % p === 0) m /= p\<close>.\<close>

partial_function (option) strip_factor :: "nat \<Rightarrow> nat \<Rightarrow> nat option" where
  "strip_factor m p = (if m mod p = 0 then strip_factor (m div p) p else Some m)"

text \<open>The \<open>for\<close> loop of \<open>isPrimePower\<close>, from the candidate \<open>p\<close> on.\<close>

function isPrimePower_loop :: "nat \<Rightarrow> nat \<Rightarrow> bool option" where
  "isPrimePower_loop a p =
     (if p \<le> a
      then if \<not> truthy_at IS_PRIME p then isPrimePower_loop a (p + 1)
           else if a mod p \<noteq> 0 then isPrimePower_loop a (p + 1)
           else map_option (\<lambda>m. m = 1) (strip_factor a p)
      else Some False)"
  by pat_completeness auto
termination
  by (relation "measure (\<lambda>(a, p). a + 1 - p)") auto

declare isPrimePower_loop.simps [simp del]

definition isPrimePower :: "nat \<Rightarrow> bool option" where
  "isPrimePower a = (if a < 2 then Some False else isPrimePower_loop a 2)"

subsection \<open>Wave decomposition\<close>

text \<open>\<open>waveLeft\<close> is called with \<open>k\<close> one of 2, 3, 5, 7 only; for positive \<open>k\<close> the
  remainder \<open>%\<close> of a non-negative number is \<open>mod\<close>.\<close>

definition waveLeft :: "int \<Rightarrow> int \<Rightarrow> int" where
  "waveLeft n k = (let m = \<bar>n\<bar> mod (2 * k) in k - min m (2 * k - m))"

record split =
  L :: jsnum
  R :: jsnum
  orthogonal :: "(jsnum \<times> jsnum) list"
  baseL :: int
  w2 :: int
  w3 :: int
  w5 :: int
  w7 :: int

definition offsets :: "int list" where
  "offsets = [2, 1, 0, -2, -1, -0]"

text \<open>An entry \<open>{ L, R }\<close> of \<open>orthogonal\<close> is the pair \<open>(L, R)\<close>. With \<open>off\<close> undefined
  both branches of the \<open>if\<close> compute \<open>NaN\<close>.\<close>

definition getSplit :: "int \<Rightarrow> int \<Rightarrow> split" where
  "getSplit n dimension =
     (let w2 = waveLeft n 2;
          w3 = waveLeft n 3;
          w5 = waveLeft n 5;
          w7 = waveLeft n 7;
          baseL = w3 + w5 + w7;
          off = js_index offsets dimension;
          l = (case off of
                 None \<Rightarrow> NaN
               | Some v \<Rightarrow> if dimension < 3 then Num (baseL + v) else Num (17 - (baseL + \<bar>v\<bar>)));
          r = js_lift (\<lambda>x. 17 - x) l
      in \<lparr> L = l, R = r,
           orthogonal =
             [ (l, r),
               (js_lift (\<lambda>x. max 0 (x - 1)) l, js_lift (\<lambda>x. min 17 (x + 1)) r),
               (js_lift (\<lambda>x. max 0 (x - 2)) l, js_lift (\<lambda>x. min 17 (x + 2)) r),
               (r, l),
               (js_lift (\<lambda>x. min 17 (x + 1)) r, js_lift (\<lambda>x. max 0 (x - 1)) l),
               (js_lift (\<lambda>x. min 17 (x + 2)) r, js_lift (\<lambda>x. max 0 (x - 2)) l) ],
           baseL = baseL, w2 = w2, w3 = w3, w5 = w5, w7 = w7 \<rparr>)"

subsection \<open>Factorization\<close>

text \<open>A \<open>Record<number, number>\<close> is an association list in insertion order, which for
  the keys written here (increasing primes) is also the order of \<open>Object.keys\<close>.\<close>

type_synonym factors = "(nat \<times> nat) list"

text \<open>\<open>f[p] = (f[p] || 0) + 1\<close>.\<close>

fun bump :: "nat \<Rightarrow> factors \<Rightarrow> factors" where
  "bump p [] = [(p, 1)]"
| "bump p ((k, e) # f) = (if k = p then (k, e + 1) # f else (k, e) # bump p f)"

text \<open>\<open>while (m % p === 0) { f[p] = (f[p] || 0) + 1; m /= p; }\<close>.\<close>

partial_function (option) divide_out :: "nat \<Rightarrow> factors \<Rightarrow> nat \<Rightarrow> (factors \<times> nat) option" where
  "divide_out p f m = (if m mod p = 0 then divide_out p (bump p f) (m div p) else Some (f, m))"

text \<open>\<open>for (let p = 2; p * p <= m; p++) while ...\<close>.\<close>

partial_function (option) trial_loop :: "nat \<Rightarrow> factors \<Rightarrow> nat \<Rightarrow> (factors \<times> nat) option" where
  "trial_loop p f m =
     (if p * p \<le> m
      then Option.bind (divide_out p f m) (\<lambda>(f', m'). trial_loop (p + 1) f' m')
      else Some (f, m))"

definition getFactorization :: "int \<Rightarrow> factors option" where
  "getFactorization n =
     (let a = nat \<bar>n\<bar> in
      if a < 2 then Some []
      else Option.bind (trial_loop 2 [] a)
             (\<lambda>(f, m). Some (if m > 1 then bump m f else f)))"

subsection \<open>Classification rules\<close>

definition isTransparent :: "int \<Rightarrow> bool" where
  "isTransparent n =
     (let a = nat \<bar>n\<bar> in
      a > 1 \<and> (case js_index PRIME_COUNT (int a) of None \<Rightarrow> False | Some c \<Rightarrow> c mod 2 = 1))"

text \<open>The field \<open>text\<close> of the source is \<open>text_color\<close> here.\<close>

record color_info =
  label :: string
  bg :: string
  text_color :: string
  glow :: string

definition COLOR_MAP :: "color_info list" where
  "COLOR_MAP =
     [ \<lparr> label = ''Zero'', bg = ''#0D0D1A'', text_color = ''#4A4A6A'', glow = '''' \<rparr>,
       \<lparr> label = ''One'', bg = ''#0F0F1F'', text_color = ''#3A3A5A'', glow = '''' \<rparr>,
       \<lparr> label = ''Prime'', bg = ''#0A0A12'', text_color = ''#5A5A72'', glow = ''rgba(150,150,200,0.15)'' \<rparr>,
       \<lparr> label = ''PrimePow'', bg = ''#0C0C18'', text_color = ''#4A4A62'', glow = ''rgba(120,120,180,0.1)'' \<rparr>,
       \<lparr> label = ''Colorless'', bg = ''#08080C'', text_color = ''#3A3A4A'', glow = '''' \<rparr>,
       \<lparr> label = ''Blue'', bg = ''#001E48'', text_color = ''#60B4FF'', glow = ''rgba(60,140,255,0.4)'' \<rparr>,
       \<lparr> label = ''Yellow'', bg = ''#3A2F00'', text_color = ''#FFE040'', glow = ''rgba(255,220,0,0.4)'' \<rparr>,
       \<lparr> label = ''Red'', bg = ''#3A0008'', text_color = ''#FF7080'', glow = ''rgba(255,60,80,0.4)'' \<rparr>,
       \<lparr> label = ''Green'', bg = ''#003D20'', text_color = ''#80FFB0'', glow = ''rgba(0,255,100,0.3)'' \<rparr>,
       \<lparr> label = ''Purple'', bg = ''#25004A'', text_color = ''#D090FF'', glow = ''rgba(160,80,255,0.35)'' \<rparr>,
       \<lparr> label = ''Orange'', bg = ''#4A2000'', text_color = ''#FFAA60'', glow = ''rgba(255,140,0,0.35)'' \<rparr>,
       \<lparr> label = ''Brown'', bg = ''#3E1A0A'', text_color = ''#D7A080'', glow = ''rgba(180,100,40,0.3)'' \<rparr>,
       \<lparr> label = ''Silver'', bg = ''#404050'', text_color = ''#D0D0E0'', glow = ''rgba(192,192,220,0.25)'' \<rparr>,
       \<lparr> label = ''Gold'', bg = ''#7A6000'', text_color = ''#FFE57F'', glow = ''rgba(255,215,0,0.4)'' \<rparr>,
       \<lparr> label = ''Golden Brown'', bg = ''#7C5800'', text_color = ''#FFE082'', glow = ''rgba(255,200,0,0.3)'' \<rparr>,
       \<lparr> label = ''Composite'', bg = ''#141420'', text_color = ''#606080'', glow = '''' \<rparr> ]"

text \<open>\<open>isColorless\<close>. \<open>keys\<close> are the keys of the factorization, \<open>totalFactors\<close> the
  sum of its exponents; with one key \<open>p\<close>, \<open>q = factors[p]\<close> is the exponent stored
  with it. When neither test on \<open>q\<close> fires the code falls through to the next rule.\<close>

definition isColorless :: "int \<Rightarrow> bool option" where
  "isColorless n =
     (let a = nat \<bar>n\<bar> in
      if a < 2 \<or> truthy_at IS_PRIME a then Some False
      else if a = 2 \<or> a = 3 \<or> a = 5 \<or> a = 7 then Some False
      else if a mod 2 = 0 then Some False
      else Option.bind (getFactorization (int a))
        (\<lambda>factors.
           let keys = map fst factors;
               totalFactors = fold (\<lambda>b a. a + b) (map snd factors) 0
           in case (if length keys = 1
                    then let p = hd keys;
                             q = (case map_of factors p of Some e \<Rightarrow> e | None \<Rightarrow> 0)
                         in if truthy_at IS_PRIME q \<and> q mod 2 = 0 then Some False
                            else if truthy_at IS_PRIME q \<and> q mod 2 \<noteq> 0 then Some True
                            else None
                    else None) of
                Some b \<Rightarrow> Some b
              | None \<Rightarrow> Some (totalFactors = 2 \<and> length keys = 2)))"

definition shifts :: "(nat \<times> nat \<times> nat) list" where
  "shifts = [(5, 6, 7), (6, 7, 5), (7, 5, 6), (5, 7, 6), (6, 5, 7), (7, 6, 5)]"

text \<open>The two divisibility chains of \<open>getColorInfo\<close>: the index into \<open>COLOR_MAP\<close> that
  the branch returns, or \<open>None\<close> when no rule of the branch fires.\<close>

definition neg_chain :: "nat \<Rightarrow> nat \<Rightarrow> nat \<Rightarrow> bool \<Rightarrow> bool \<Rightarrow> bool \<Rightarrow> nat option" where
  "neg_chain c2 c3 c7 b2 b3 b7 =
     (let cGreen = 8; cPurple = 9; cOrange = 10; cBrown = 11 in
      if b2 \<and> b3 \<and> b7 then Some cBrown
      else if b3 \<and> b7 then Some c2
      else if b2 \<and> b3 then Some c7
      else if b2 \<and> b7 then Some c3
      else if b2 then Some cOrange
      else if b3 then Some cPurple
      else if b7 then Some cGreen
      else None)"

definition pos_chain :: "nat \<Rightarrow> nat \<Rightarrow> nat \<Rightarrow> bool \<Rightarrow> bool \<Rightarrow> bool \<Rightarrow> nat option" where
  "pos_chain c2 c3 c7 b2 b3 b7 =
     (let cGreen = 8; cPurple = 9; cOrange = 10; cBrown = 11 in
      if b2 \<and> b3 \<and> b7 then Some cBrown
      else if b3 \<and> b7 then Some cOrange
      else if b2 \<and> b3 then Some cGreen
      else if b2 \<and> b7 then Some cPurple
      else if b2 then Some c2
      else if b3 then Some c3
      else if b7 then Some c7
      else None)"

text \<open>\<open>getColorInfo\<close>. Destructuring \<open>shifts[dimension]\<close> when it is \<open>undefined\<close> throws
  a \<open>TypeError\<close>; the two returns for magnitudes 0 and 1 come before it.\<close>

definition getColorInfo :: "int \<Rightarrow> int \<Rightarrow> (js_error + color_info) option" where
  "getColorInfo n dimension =
     (let a = nat \<bar>n\<bar>; isNeg = n < 0 in
      if a = 0 then Some (Inr (COLOR_MAP ! 0))
      else if a = 1 then Some (Inr (COLOR_MAP ! 1))
      else case js_index shifts dimension of
        None \<Rightarrow> Some (Inl TypeError)
      | Some (c2, c3, c7) \<Rightarrow>
          if a mod 2 = 0 \<and> a mod 3 = 0 \<and> a mod 5 = 0 \<and> a mod 7 = 0
            then Some (Inr (COLOR_MAP ! 14))
          else if a mod 2 = 0 \<and> a mod 5 = 0 then Some (Inr (COLOR_MAP ! 13))
          else if a mod 5 = 0 then Some (Inr (COLOR_MAP ! 12))
          else
            let b2 = (a mod 2 = 0); b3 = (a mod 3 = 0); b7 = (a mod 7 = 0) in
            case (if isNeg then neg_chain c2 c3 c7 b2 b3 b7 else pos_chain c2 c3 c7 b2 b3 b7) of
              Some c \<Rightarrow> Some (Inr (COLOR_MAP ! c))
            | None \<Rightarrow>
                if a = 2 then Some (Inr (COLOR_MAP ! c2))
                else if a = 3 then Some (Inr (COLOR_MAP ! c3))
                else if a = 7 then Some (Inr (COLOR_MAP ! c7))
                else Option.bind (isColorless n)
                  (\<lambda>colorless.
                     if colorless then Some (Inr (COLOR_MAP ! 4))
                     else if truthy_at IS_PRIME a then Some (Inr (COLOR_MAP ! 2))
                     else Option.bind (isPrimePower a)
                       (\<lambda>pp. if pp then Some (Inr (COLOR_MAP ! 3))
                              else Some (Inr (COLOR_MAP ! 15)))))"

subsection \<open>Prime bending\<close>

text \<open>The prime-bending part of \<open>selectedDetail\<close>, for a selected number.\<close>

record bending =
  cyclePos :: nat
  bendingCounterpart :: nat
  isBendingPrime :: bool
  bendingPair :: "nat option"

definition primeBending :: "int \<Rightarrow> bending" where
  "primeBending selected =
     (let a = nat \<bar>selected\<bar>;
          cyclePos = a mod 210;
          bendingCounterpart = (210 - cyclePos) mod 210;
          isBendingPrime = (cyclePos \<in> set [11, 13, 17, 19, 191, 193, 197, 199]);
          bendingPair = (if isBendingPrime then Some (210 - cyclePos) else None)
      in \<lparr> cyclePos = cyclePos, bendingCounterpart = bendingCounterpart,
           isBendingPrime = isBendingPrime, bendingPair = bendingPair \<rparr>)"

text \<open>\<open>L + R\<close> of an entry of \<open>orthogonal\<close>, as JavaScript adds: \<open>NaN\<close> when a side is.\<close>

definition js_add :: "jsnum \<Rightarrow> jsnum \<Rightarrow> jsnum" where
  "js_add x y = (case (x, y) of (Num a, Num b) \<Rightarrow> Num (a + b) | _ \<Rightarrow> NaN)"

subsection \<open>Notions of the specification\<close>

text \<open>A prime: greater than 1 and without a divisor strictly between 1 and itself.\<close>

definition is_prime :: "nat \<Rightarrow> bool" where
  "is_prime n = (1 < n \<and> (\<forall>d \<in> {2..<n}. \<not> d dvd n))"

text \<open>The count of primes up to a magnitude.\<close>

definition primes_upto :: "nat \<Rightarrow> nat" where
  "primes_upto m = card {p \<in> {0..m}. is_prime p}"

text \<open>The product of \<open>p ^ e\<close> over a factorization map.\<close>

definition factors_prod :: "factors \<Rightarrow> nat" where
  "factors_prod f = prod_list (map (\<lambda>(p, e). p ^ e) f)"

text \<open>A factorization record: unique keys, each a prime, each with a positive exponent.\<close>

definition prime_factors_map :: "factors \<Rightarrow> bool" where
  "prime_factors_map f = (distinct (map fst f) \<and> (\<forall>(p, e) \<in> set f. is_prime p \<and> 0 < e))"

text \<open>The map \<open>f\<close> after \<open>e\<close> increments of the exponent of a key \<open>p\<close> it did not have.\<close>

definition with_exponent :: "nat \<Rightarrow> nat \<Rightarrow> factors \<Rightarrow> factors" where
  "with_exponent p e f = (if e = 0 then f else f @ [(p, e)])"

text \<open>The colourless rule in the specification's words: an odd composite, not one of
  2, 3, 5, 7, that is a prime raised to an odd prime, or a product of two distinct primes.\<close>

definition colorless_spec :: "nat \<Rightarrow> bool" where
  "colorless_spec a =
     (odd a \<and> 1 < a \<and> \<not> is_prime a \<and> a \<notin> {2, 3, 5, 7} \<and>
      ((\<exists>p q. is_prime p \<and> is_prime q \<and> odd q \<and> a = p ^ q) \<or>
       (\<exists>p r. is_prime p \<and> is_prime r \<and> p \<noteq> r \<and> a = p * r)))"

section \<open>The 17-split\<close>

lemma waveLeft_bounds: "0 < k \<Longrightarrow> 0 \<le> waveLeft n k \<and> waveLeft n k \<le> k"
proof -
  assume k: "0 < k"
  then have "0 \<le> \<bar>n\<bar> mod (2 * k)" and "\<bar>n\<bar> mod (2 * k) < 2 * k"
    by simp_all
  then show ?thesis
    unfolding waveLeft_def Let_def min_def by auto
qed

text \<open>The triangle wave is even, so the magnitude can be dropped.\<close>

lemma triangle_symmetric:
  "0 < m \<Longrightarrow> min (\<bar>n\<bar> mod m) (m - \<bar>n\<bar> mod m) = min (n mod m) (m - n mod (m::int))"
proof (cases "n < 0")
  case False
  then show ?thesis by simp
next
  case True
  assume m: "0 < m"
  show ?thesis
  proof (cases "n mod m = 0")
    case z: True
    then have "(- n) mod m = 0"
      by (simp add: mod_minus_eq dvd_eq_mod_eq_0[symmetric])
    with True z show ?thesis by simp
  next
    case nz: False
    then have "(- n) mod m = m - n mod m"
      using m by (simp add: zmod_zminus1_eq_if)
    with True show ?thesis by (simp add: min.commute)
  qed
qed

lemma waveLeft_signed:
  "0 < k \<Longrightarrow> waveLeft n k = k - min (n mod (2 * k)) (2 * k - n mod (2 * k))"
  unfolding waveLeft_def Let_def by (simp add: triangle_symmetric)

lemma waveLeft_shift: "0 < k \<Longrightarrow> waveLeft (n + 2 * k * c) k = waveLeft n k"
  by (simp only: waveLeft_signed mod_mult_self2)

lemma waveLeft_210:
  "waveLeft (n + 210) 3 = waveLeft n 3"
  "waveLeft (n + 210) 5 = waveLeft n 5"
  "waveLeft (n + 210) 7 = waveLeft n 7"
  using waveLeft_shift[of 3 n 35] waveLeft_shift[of 5 n 21] waveLeft_shift[of 7 n 15]
  by simp_all

lemma dimension_cases:
  "0 \<le> d \<Longrightarrow> d \<le> 5 \<Longrightarrow> d = 0 \<or> d = 1 \<or> d = 2 \<or> d = 3 \<or> d = 4 \<or> d = (5::int)"
  by arith

lemma js_index_offsets:
  "js_index offsets 0 = Some 2" "js_index offsets 1 = Some 1" "js_index offsets 2 = Some 0"
  "js_index offsets 3 = Some (-2)" "js_index offsets 4 = Some (-1)" "js_index offsets 5 = Some 0"
  by (simp_all add: js_index_def offsets_def)

lemma js_index_outside: "d < 0 \<or> int (length xs) \<le> d \<Longrightarrow> js_index xs d = None"
  by (auto simp: js_index_def)

lemma getSplit_baseL: "baseL (getSplit n d) = waveLeft n 3 + waveLeft n 5 + waveLeft n 7"
  by (simp add: getSplit_def Let_def)

lemma getSplit_w2: "w2 (getSplit n d) = waveLeft n 2"
  by (simp add: getSplit_def Let_def)

lemma baseL_bounds: "0 \<le> baseL (getSplit n d) \<and> baseL (getSplit n d) \<le> 15"
  using waveLeft_bounds[of 3 n] waveLeft_bounds[of 5 n] waveLeft_bounds[of 7 n]
  by (simp add: getSplit_baseL)

lemma getSplit_L:
  "L (getSplit n d) =
     (case js_index offsets d of None \<Rightarrow> NaN
      | Some v \<Rightarrow> if d < 3 then Num (baseL (getSplit n d) + v)
                  else Num (17 - (baseL (getSplit n d) + \<bar>v\<bar>)))"
  unfolding getSplit_baseL by (simp add: getSplit_def Let_def)

lemma getSplit_R: "R (getSplit n d) = js_lift (\<lambda>x. 17 - x) (L (getSplit n d))"
  by (simp add: getSplit_def Let_def)

lemma getSplit_orthogonal:
  "orthogonal (getSplit n d) =
     (let l = L (getSplit n d); r = R (getSplit n d) in
      [ (l, r),
        (js_lift (\<lambda>x. max 0 (x - 1)) l, js_lift (\<lambda>x. min 17 (x + 1)) r),
        (js_lift (\<lambda>x. max 0 (x - 2)) l, js_lift (\<lambda>x. min 17 (x + 2)) r),
        (r, l),
        (js_lift (\<lambda>x. min 17 (x + 1)) r, js_lift (\<lambda>x. max 0 (x - 1)) l),
        (js_lift (\<lambda>x. min 17 (x + 2)) r, js_lift (\<lambda>x. max 0 (x - 2)) l) ])"
  by (simp add: getSplit_def Let_def)

lemma getSplit_primary:
  assumes "0 \<le> d" and "d \<le> 5"
  shows "\<exists>l r. L (getSplit n d) = Num l \<and> R (getSplit n d) = Num r \<and> l + r = 17
           \<and> 0 \<le> l \<and> l \<le> 17 \<and> 0 \<le> r \<and> r \<le> 17"
  using dimension_cases[OF assms] baseL_bounds[of n d]
  by (auto simp: getSplit_L getSplit_R js_index_offsets js_lift_def)

lemma getSplit_orthogonal_sums:
  assumes "0 \<le> d" and "d \<le> 5" and "i < 6"
  shows "js_add (fst (orthogonal (getSplit n d) ! i)) (snd (orthogonal (getSplit n d) ! i)) = Num 17"
proof -
  obtain l r where lr: "L (getSplit n d) = Num l" "R (getSplit n d) = Num r" "l + r = 17"
    "0 \<le> l" "l \<le> 17"
    using getSplit_primary[OF assms(1,2), of n] by blast
  have o: "orthogonal (getSplit n d) =
      [ (Num l, Num r), (Num (max 0 (l - 1)), Num (min 17 (r + 1))),
        (Num (max 0 (l - 2)), Num (min 17 (r + 2))), (Num r, Num l),
        (Num (min 17 (r + 1)), Num (max 0 (l - 1))),
        (Num (min 17 (r + 2)), Num (max 0 (l - 2))) ]"
    unfolding getSplit_orthogonal lr by (simp add: js_lift_def Let_def)
  from \<open>i < 6\<close> have "i = 0 \<or> i = 1 \<or> i = 2 \<or> i = 3 \<or> i = 4 \<or> i = 5" by arith
  then show ?thesis
    using lr(3,4,5) unfolding o by (auto simp: js_add_def)
qed

lemma getSplit_0_0:
  "L (getSplit 0 0) = Num 17" "R (getSplit 0 0) = Num 0" "baseL (getSplit 0 0) = 15"
  by (simp_all add: getSplit_R getSplit_L getSplit_baseL waveLeft_def js_index_offsets js_lift_def)

lemma getSplit_0_3:
  "L (getSplit 0 3) = Num 0" "R (getSplit 0 3) = Num 17"
  by (simp_all add: getSplit_R getSplit_L getSplit_baseL waveLeft_def js_index_offsets js_lift_def)

text \<open>
  Claim C2. For every integer \<open>n\<close> and every dimension in 0..5 the primary split of
  \<open>getSplit n dimension\<close> consists of two numbers \<open>L\<close> and \<open>R\<close> with \<open>L + R = 17\<close>,
  and both lie in the interval from 0 to 17.
\<close>

theorem getSplit_primary_sum_17:
  assumes "0 \<le> d" and "d \<le> 5"
  shows "\<exists>l r. L (getSplit n d) = Num l \<and> R (getSplit n d) = Num r \<and> l + r = 17
           \<and> 0 \<le> l \<and> l \<le> 17 \<and> 0 \<le> r \<and> r \<le> 17"
  using assms by (rule getSplit_primary)

theorem getSplit_primary_sum_17_witness:
  "(0::int) \<le> 0 \<and> (0::int) \<le> 5 \<and> L (getSplit 0 0) = Num 17 \<and> R (getSplit 0 0) = Num 0
     \<and> (\<exists>l r. L (getSplit 0 0) = Num l \<and> R (getSplit 0 0) = Num r \<and> l + r = 17
           \<and> 0 \<le> l \<and> l \<le> 17 \<and> 0 \<le> r \<and> r \<le> 17)"
  using getSplit_primary_sum_17[of 0 0] by (simp add: getSplit_0_0)

text \<open>
  Claim C10. For every integer \<open>n\<close> and every dimension, \<open>getSplit (n + 210)\<close> has the
  same primary \<open>L\<close> and \<open>R\<close> as \<open>getSplit n\<close>: they are computed from the waves of
  3, 5 and 7 only, whose periods 6, 10 and 14 divide 210. The 2-wave is not part of
  them: \<open>w2\<close> differs between 0 and 210.
\<close>

theorem getSplit_period_210:
  "L (getSplit (n + 210) d) = L (getSplit n d) \<and> R (getSplit (n + 210) d) = R (getSplit n d)
     \<and> w2 (getSplit (0 + 210) d) \<noteq> w2 (getSplit 0 d)"
proof -
  have b: "baseL (getSplit (n + 210) d) = baseL (getSplit n d)"
    by (simp add: getSplit_baseL waveLeft_210)
  have "L (getSplit (n + 210) d) = L (getSplit n d)"
    unfolding getSplit_L b ..
  moreover have "w2 (getSplit (0 + 210) d) \<noteq> w2 (getSplit 0 d)"
    by (simp add: getSplit_w2 waveLeft_def)
  ultimately show ?thesis
    by (simp add: getSplit_R)
qed

text \<open>
  Claim C9, as stated: for some \<open>n\<close> and some dimension in 0..5, entry 1 or entry 2 of
  \<open>orthogonal\<close> has \<open>L + R \<noteq> 17\<close>. There is no such input.
\<close>

theorem orthogonal_clamp_breaks_sum_counterexample:
  "\<not> (\<exists>n d. 0 \<le> d \<and> d \<le> 5 \<and>
        (js_add (fst (orthogonal (getSplit n d) ! 1)) (snd (orthogonal (getSplit n d) ! 1)) \<noteq> Num 17
       \<or> js_add (fst (orthogonal (getSplit n d) ! 2)) (snd (orthogonal (getSplit n d) ! 2)) \<noteq> Num 17))"
  using getSplit_orthogonal_sums[of _ 1] getSplit_orthogonal_sums[of _ 2] by fastforce

text \<open>
  Claim C9, amended. For every integer \<open>n\<close> and every dimension in 0..5, each of the six
  entries of \<open>orthogonal\<close> has \<open>L + R = 17\<close>: the primary \<open>L\<close> is in 0..17, so clamping
  \<open>L - k\<close> at 0 and \<open>R + k\<close> at 17 happens on both sides at once.
\<close>

theorem orthogonal_entries_sum_17:
  assumes "0 \<le> d" and "d \<le> 5" and "i < 6"
  shows "js_add (fst (orthogonal (getSplit n d) ! i)) (snd (orthogonal (getSplit n d) ! i)) = Num 17"
  using assms by (rule getSplit_orthogonal_sums)

theorem orthogonal_entries_sum_17_witness:
  "(0::int) \<le> 3 \<and> (3::int) \<le> 5 \<and> (1::nat) < 6
     \<and> orthogonal (getSplit 0 3) ! 1 = (Num 0, Num 17)
     \<and> js_add (fst (orthogonal (getSplit 0 3) ! 1)) (snd (orthogonal (getSplit 0 3) ! 1)) = Num 17"
  using orthogonal_entries_sum_17[of 3 1 0]
  by (simp add: getSplit_orthogonal getSplit_0_3 js_lift_def Let_def)

section \<open>Colour assignment\<close>

lemma magnitude_mod: "(nat \<bar>n\<bar> mod k = 0) = (int k dvd n)"
proof -
  have "(nat \<bar>n\<bar> mod k = 0) = (k dvd nat \<bar>n\<bar>)" by (simp add: dvd_eq_mod_eq_0)
  also have "\<dots> = (int k dvd \<bar>n\<bar>)" by (simp add: int_dvd_int_iff[symmetric] del: int_dvd_int_iff)
  finally show ?thesis by simp
qed

lemma js_index_shifts:
  "js_index shifts d = Some (c2, c3, c7) \<Longrightarrow>
     (d = 0 \<and> (c2, c3, c7) = (5, 6, 7)) \<or> (d = 1 \<and> (c2, c3, c7) = (6, 7, 5)) \<or>
     (d = 2 \<and> (c2, c3, c7) = (7, 5, 6)) \<or> (d = 3 \<and> (c2, c3, c7) = (5, 7, 6)) \<or>
     (d = 4 \<and> (c2, c3, c7) = (6, 5, 7)) \<or> (d = 5 \<and> (c2, c3, c7) = (7, 6, 5))"
proof -
  assume a: "js_index shifts d = Some (c2, c3, c7)"
  have len: "length shifts = 6" by (simp add: shifts_def)
  from a have "0 \<le> d" and "d < 6"
    unfolding js_index_def len by (simp_all split: if_splits)
  then consider "d = 0" | "d = 1" | "d = 2" | "d = 3" | "d = 4" | "d = 5" by arith
  then show ?thesis
    using a by cases (simp_all add: js_index_def shifts_def)
qed

lemma js_index_shifts_0: "js_index shifts 0 = Some (5, 6, 7)"
  by (simp add: js_index_def shifts_def)

lemma js_index_shifts_valid:
  assumes "0 \<le> d" and "d \<le> 5"
  shows "\<exists>c2 c3 c7. js_index shifts d = Some (c2, c3, c7) \<and> {c2, c3, c7} \<subseteq> {5, 6, 7}"
  using dimension_cases[OF assms] by (auto simp: js_index_def shifts_def)

lemma COLOR_MAP_labels:
  "label (COLOR_MAP ! 0) = ''Zero''" "label (COLOR_MAP ! 1) = ''One''"
  "label (COLOR_MAP ! 2) = ''Prime''" "label (COLOR_MAP ! 3) = ''PrimePow''"
  "label (COLOR_MAP ! 4) = ''Colorless''" "label (COLOR_MAP ! 5) = ''Blue''"
  "label (COLOR_MAP ! 6) = ''Yellow''" "label (COLOR_MAP ! 7) = ''Red''"
  "label (COLOR_MAP ! 8) = ''Green''" "label (COLOR_MAP ! 9) = ''Purple''"
  "label (COLOR_MAP ! 10) = ''Orange''" "label (COLOR_MAP ! 11) = ''Brown''"
  "label (COLOR_MAP ! 12) = ''Silver''" "label (COLOR_MAP ! 13) = ''Gold''"
  "label (COLOR_MAP ! 14) = ''Golden Brown''" "label (COLOR_MAP ! 15) = ''Composite''"
  by (simp_all add: COLOR_MAP_def)

lemma getColorInfo_chain:
  assumes "2 \<le> nat \<bar>n\<bar>" and "js_index shifts d = Some (c2, c3, c7)" and "\<not> 5 dvd n"
    and "(if n < 0 then neg_chain c2 c3 c7 (2 dvd n) (3 dvd n) (7 dvd n)
          else pos_chain c2 c3 c7 (2 dvd n) (3 dvd n) (7 dvd n)) = Some c"
  shows "getColorInfo n d = Some (Inr (COLOR_MAP ! c))"
proof -
  have m: "(nat \<bar>n\<bar> mod 2 = 0) = (2 dvd n)" "(nat \<bar>n\<bar> mod 3 = 0) = (3 dvd n)"
    "(nat \<bar>n\<bar> mod 5 = 0) = (5 dvd n)" "(nat \<bar>n\<bar> mod 7 = 0) = (7 dvd n)"
    using magnitude_mod[of n 2] magnitude_mod[of n 3] magnitude_mod[of n 5] magnitude_mod[of n 7]
    by simp_all
  from assms(1) have a: "nat \<bar>n\<bar> \<noteq> 0" "nat \<bar>n\<bar> \<noteq> 1" by simp_all
  show ?thesis
    unfolding getColorInfo_def Let_def m
    using a assms(2,3,4) by (simp split: if_splits)
qed

lemma getColorInfo_small:
  "getColorInfo 0 d = Some (Inr (COLOR_MAP ! 0))"
  "\<bar>n\<bar> = 1 \<Longrightarrow> getColorInfo n d = Some (Inr (COLOR_MAP ! 1))"
  by (simp_all add: getColorInfo_def)

lemma getColorInfo_bad_dimension:
  assumes "d < 0 \<or> 5 < d" and "2 \<le> \<bar>n\<bar>"
  shows "getColorInfo n d = Some (Inl TypeError)"
proof -
  have "js_index shifts d = None"
    using assms(1) by (intro js_index_outside) (auto simp: shifts_def)
  moreover have "nat \<bar>n\<bar> \<noteq> 0" "nat \<bar>n\<bar> \<noteq> 1"
    using assms(2) by simp_all
  ultimately show ?thesis
    by (simp add: getColorInfo_def)
qed

lemma getSplit_bad_dimension:
  assumes "d < 0 \<or> 5 < d"
  shows "L (getSplit n d) = NaN" "R (getSplit n d) = NaN"
proof -
  have "js_index offsets d = None"
    using assms by (intro js_index_outside) (auto simp: offsets_def)
  then show "L (getSplit n d) = NaN" "R (getSplit n d) = NaN"
    by (simp_all add: getSplit_L getSplit_R js_lift_def)
qed

text \<open>
  Claim C1, as stated: for \<open>n = 0\<close> and dimension 0 the primary split is \<open>L = 2\<close>,
  \<open>R = 15\<close>, with \<open>baseL(0) = 0\<close>. None of the three values is what the code computes.
\<close>

theorem zero_split_2_15_counterexample:
  "L (getSplit 0 0) \<noteq> Num 2 \<and> R (getSplit 0 0) \<noteq> Num 15 \<and> baseL (getSplit 0 0) \<noteq> 0"
  by (simp add: getSplit_0_0)

text \<open>
  Claim C1, amended. For \<open>n = 0\<close> and dimension 0 the colour label is "Zero" and the
  primary split is \<open>L = 17\<close>, \<open>R = 0\<close>: every wave is at its top at 0, so
  \<open>baseL(0) = 3 + 5 + 7 = 15\<close>, and the offset of dimension 0 is \<open>+2\<close>.
\<close>

theorem zero_classification:
  "map_option (map_sum id label) (getColorInfo 0 0) = Some (Inr ''Zero'')
     \<and> L (getSplit 0 0) = Num 17 \<and> R (getSplit 0 0) = Num 0
     \<and> baseL (getSplit 0 0) = 15 \<and> js_index offsets 0 = Some 2"
  by (simp add: getColorInfo_small COLOR_MAP_labels getSplit_0_0 js_index_offsets)

lemma negative_pairs_row:
  assumes "n < 0" and "\<not> 5 dvd n" and "js_index shifts d = Some (c2, c3, c7)"
  shows "(3 dvd n \<and> 7 dvd n \<and> \<not> 2 dvd n \<longrightarrow> getColorInfo n d = Some (Inr (COLOR_MAP ! c2)))
       \<and> (2 dvd n \<and> 3 dvd n \<and> \<not> 7 dvd n \<longrightarrow> getColorInfo n d = Some (Inr (COLOR_MAP ! c7)))
       \<and> (2 dvd n \<and> 7 dvd n \<and> \<not> 3 dvd n \<longrightarrow> getColorInfo n d = Some (Inr (COLOR_MAP ! c3)))
       \<and> label (COLOR_MAP ! c2) \<in> set [''Blue'', ''Yellow'', ''Red'']
       \<and> label (COLOR_MAP ! c3) \<in> set [''Blue'', ''Yellow'', ''Red'']
       \<and> label (COLOR_MAP ! c7) \<in> set [''Blue'', ''Yellow'', ''Red'']"
proof -
  have big: "2 \<le> nat \<bar>n\<bar>" if "k dvd n" "2 \<le> k" for k
  proof -
    from \<open>n < 0\<close> that(1) have "k \<le> \<bar>n\<bar>" by (simp add: zdvd_imp_le)
    with that(2) show ?thesis by simp
  qed
  have 1: "getColorInfo n d = Some (Inr (COLOR_MAP ! c2))" if "3 dvd n" "7 dvd n" "\<not> 2 dvd n"
    using that assms by (intro getColorInfo_chain[OF big[of 3]]) (simp_all add: neg_chain_def)
  have 2: "getColorInfo n d = Some (Inr (COLOR_MAP ! c7))" if "2 dvd n" "3 dvd n" "\<not> 7 dvd n"
    using that assms by (intro getColorInfo_chain[OF big[of 3]]) (simp_all add: neg_chain_def)
  have 3: "getColorInfo n d = Some (Inr (COLOR_MAP ! c3))" if "2 dvd n" "7 dvd n" "\<not> 3 dvd n"
    using that assms by (intro getColorInfo_chain[OF big[of 7]]) (simp_all add: neg_chain_def)
  have 4: "label (COLOR_MAP ! c2) \<in> set [''Blue'', ''Yellow'', ''Red'']
       \<and> label (COLOR_MAP ! c3) \<in> set [''Blue'', ''Yellow'', ''Red'']
       \<and> label (COLOR_MAP ! c7) \<in> set [''Blue'', ''Yellow'', ''Red'']"
    using js_index_shifts[OF assms(3)] by (auto simp: COLOR_MAP_labels)
  from 1 2 3 4 show ?thesis by blast
qed

text \<open>
  Claim C4. For a negative \<open>n\<close> that 5 does not divide and a dimension in 0..5, whose
  row of \<open>shifts\<close> is \<open>(c2, c3, c7)\<close>: when exactly two of 2, 3, 7 divide \<open>n\<close>, \<open>getColorInfo\<close>
  returns the base colour of the third one (\<open>c2\<close> for 3 and 7, \<open>c7\<close> for 2 and 3,
  \<open>c3\<close> for 2 and 7), which is one of Blue, Yellow, Red and so not a combination
  colour. For \<open>n = -14\<close> and dimension 0 that is Yellow (the witness).
\<close>

theorem getColorInfo_negative_pairs:
  assumes "n < 0" and "\<not> 5 dvd n" and "0 \<le> d" and "d \<le> 5"
  shows "\<exists>c2 c3 c7. js_index shifts d = Some (c2, c3, c7)
       \<and> (3 dvd n \<and> 7 dvd n \<and> \<not> 2 dvd n \<longrightarrow> getColorInfo n d = Some (Inr (COLOR_MAP ! c2)))
       \<and> (2 dvd n \<and> 3 dvd n \<and> \<not> 7 dvd n \<longrightarrow> getColorInfo n d = Some (Inr (COLOR_MAP ! c7)))
       \<and> (2 dvd n \<and> 7 dvd n \<and> \<not> 3 dvd n \<longrightarrow> getColorInfo n d = Some (Inr (COLOR_MAP ! c3)))
       \<and> label (COLOR_MAP ! c2) \<in> set [''Blue'', ''Yellow'', ''Red'']
       \<and> label (COLOR_MAP ! c3) \<in> set [''Blue'', ''Yellow'', ''Red'']
       \<and> label (COLOR_MAP ! c7) \<in> set [''Blue'', ''Yellow'', ''Red'']"
proof -
  from js_index_shifts_valid[OF assms(3,4)]
  obtain c2 c3 c7 where row: "js_index shifts d = Some (c2, c3, c7)" by blast
  from negative_pairs_row[OF assms(1,2) row] row show ?thesis by blast
qed

theorem getColorInfo_negative_pairs_witness:
  "(-14::int) < 0 \<and> \<not> 5 dvd (-14::int) \<and> (0::int) \<le> 0 \<and> (0::int) \<le> 5
     \<and> js_index shifts 0 = Some (5, 6, 7)
     \<and> 2 dvd (-14::int) \<and> 7 dvd (-14::int) \<and> \<not> 3 dvd (-14::int)
     \<and> getColorInfo (-14) 0 = Some (Inr (COLOR_MAP ! 6)) \<and> label (COLOR_MAP ! 6) = ''Yellow''"
  using getColorInfo_negative_pairs[of "-14" 0]
  by (auto simp: js_index_shifts_0 COLOR_MAP_labels)

text \<open>
  Claim C5, as stated: a dimension outside 0..5 fails with a configuration error before
  any computation and never gets a default result. With dimension 6 and \<open>n = 0\<close> the
  code returns the colour "Zero" and a split record (with \<open>baseL = 15\<close> computed and
  \<open>L\<close> equal to \<open>NaN\<close>), and raises nothing.
\<close>

theorem bad_dimension_no_error_counterexample:
  "(5::int) < 6 \<and> map_option (map_sum id label) (getColorInfo 0 6) = Some (Inr ''Zero'')
     \<and> L (getSplit 0 6) = NaN \<and> baseL (getSplit 0 6) = 15"
  using getSplit_bad_dimension[of 6 0]
  by (simp add: getColorInfo_small COLOR_MAP_labels getSplit_baseL waveLeft_def)

text \<open>
  Claim C5, amended. With a dimension outside 0..5 \<open>getSplit\<close> raises no error and
  returns a record whose \<open>L\<close> and \<open>R\<close> are \<open>NaN\<close>; \<open>getColorInfo\<close> returns "Zero" for
  \<open>n = 0\<close> and "One" for magnitude 1, and for every other \<open>n\<close> throws a \<open>TypeError\<close>
  when it destructures the missing row of \<open>shifts\<close>.
\<close>

theorem bad_dimension_behaviour:
  assumes "d < 0 \<or> 5 < d"
  shows "L (getSplit n d) = NaN \<and> R (getSplit n d) = NaN
       \<and> getColorInfo n d =
           (if n = 0 then Some (Inr (COLOR_MAP ! 0))
            else if \<bar>n\<bar> = 1 then Some (Inr (COLOR_MAP ! 1))
            else Some (Inl TypeError))"
proof -
  have "getColorInfo n d = Some (Inl TypeError)" if "n \<noteq> 0" "\<bar>n\<bar> \<noteq> 1"
    using that by (intro getColorInfo_bad_dimension[OF assms]) arith
  then show ?thesis
    using getSplit_bad_dimension[OF assms, of n] by (simp add: getColorInfo_small)
qed

theorem bad_dimension_behaviour_witness:
  "((7::int) < 0 \<or> (5::int) < 7) \<and> L (getSplit 12 7) = NaN \<and> R (getSplit 12 7) = NaN
     \<and> getColorInfo 12 7 = Some (Inl TypeError)
     \<and> getColorInfo 0 7 = Some (Inr (COLOR_MAP ! 0))
     \<and> getColorInfo (-1) 7 = Some (Inr (COLOR_MAP ! 1))"
  using bad_dimension_behaviour[of 7 12] bad_dimension_behaviour[of 7 0]
    bad_dimension_behaviour[of 7 "-1"]
  by simp

section \<open>Prime bending\<close>

lemma primeBending_fields:
  "cyclePos (primeBending n) = nat \<bar>n\<bar> mod 210"
  "bendingCounterpart (primeBending n) = (210 - cyclePos (primeBending n)) mod 210"
  "isBendingPrime (primeBending n)
     = (cyclePos (primeBending n) \<in> set [11, 13, 17, 19, 191, 193, 197, 199])"
  unfolding primeBending_def Let_def by (simp_all only: bending.simps)

lemma counterpart_sum: "c < 210 \<Longrightarrow> (c + (210 - c) mod 210) mod 210 = (0::nat)"
proof (cases "c = 0")
  case True
  then show ?thesis by simp
next
  case False
  assume "c < 210"
  with False have "(210 - c) mod 210 = 210 - c" by simp
  with \<open>c < 210\<close> show ?thesis by simp
qed

lemma primeBending_17:
  "cyclePos (primeBending 17) = 17" "bendingCounterpart (primeBending 17) = 193"
  "isBendingPrime (primeBending 17)"
  unfolding primeBending_fields by simp_all

text \<open>
  Claim C8. For every \<open>n\<close> the prime-bending record has \<open>cyclePos = |n| mod 210\<close> and
  \<open>counterpart = (210 - cyclePos) mod 210\<close>; their sum is 0 modulo 210, and
  \<open>counterpart\<close> is 0 when \<open>cyclePos\<close> is 0; the quad-anchor flag holds exactly for
  \<open>cyclePos\<close> in 11, 13, 17, 19, 191, 193, 197, 199. For \<open>n = 17\<close>: \<open>cyclePos = 17\<close>,
  \<open>counterpart = 193\<close>, flag true.
\<close>

theorem primeBending_relation:
  "cyclePos (primeBending n) = nat \<bar>n\<bar> mod 210
     \<and> bendingCounterpart (primeBending n) = (210 - cyclePos (primeBending n)) mod 210
     \<and> (cyclePos (primeBending n) + bendingCounterpart (primeBending n)) mod 210 = 0
     \<and> (cyclePos (primeBending n) = 0 \<longrightarrow> bendingCounterpart (primeBending n) = 0)
     \<and> isBendingPrime (primeBending n)
         = (cyclePos (primeBending n) \<in> {11, 13, 17, 19, 191, 193, 197, 199})
     \<and> cyclePos (primeBending 17) = 17 \<and> bendingCounterpart (primeBending 17) = 193
     \<and> isBendingPrime (primeBending 17)"
proof -
  have c: "cyclePos (primeBending n) < 210"
    unfolding primeBending_fields(1) by simp
  have s: "(cyclePos (primeBending n) + bendingCounterpart (primeBending n)) mod 210 = 0"
    unfolding primeBending_fields(2) using c by (rule counterpart_sum)
  have z: "bendingCounterpart (primeBending n) = 0" if "cyclePos (primeBending n) = 0"
    unfolding primeBending_fields(2) that by simp
  have q: "isBendingPrime (primeBending n)
         = (cyclePos (primeBending n) \<in> {11, 13, 17, 19, 191, 193, 197, 199})"
    unfolding primeBending_fields(3) by simp
  from s z q primeBending_fields(1,2)[of n] primeBending_17 show ?thesis
    by blast
qed

theorem primeBending_relation_witness:
  "cyclePos (primeBending 420) = 0 \<and> bendingCounterpart (primeBending 420) = 0
     \<and> \<not> isBendingPrime (primeBending 420)"
proof -
  have "cyclePos (primeBending 420) = 0"
    unfolding primeBending_fields(1) by simp
  then show ?thesis
    using primeBending_relation[of 420] by simp
qed

section \<open>The sieve tables\<close>

lemma is_prime_sqrt:
  "is_prime k = (2 \<le> k \<and> (\<forall>d. 2 \<le> d \<and> d * d \<le> k \<longrightarrow> \<not> d dvd k))"
proof
  assume p: "is_prime k"
  have "\<not> d dvd k" if "2 \<le> d" "d * d \<le> k" for d
  proof -
    from that(1) have "d * 2 \<le> d * d" by simp
    with that have "d < k" by arith
    with that(1) p show ?thesis by (simp add: is_prime_def)
  qed
  with p show "2 \<le> k \<and> (\<forall>d. 2 \<le> d \<and> d * d \<le> k \<longrightarrow> \<not> d dvd k)"
    by (simp add: is_prime_def)
next
  assume r: "2 \<le> k \<and> (\<forall>d. 2 \<le> d \<and> d * d \<le> k \<longrightarrow> \<not> d dvd k)"
  have "\<not> d dvd k" if d: "2 \<le> d" "d < k" for d
  proof
    assume "d dvd k"
    then obtain e where e: "k = d * e" by (auto simp: dvd_def)
    have "e \<noteq> 0" using e r by auto
    moreover have "e \<noteq> 1" using e d by auto
    ultimately have "2 \<le> e" by arith
    show False
    proof (cases "d \<le> e")
      case True
      then have "d * d \<le> k" using e by simp
      with r d(1) \<open>d dvd k\<close> show False by blast
    next
      case False
      then have "e * e \<le> k" using e by simp
      moreover have "e dvd k" using e by simp
      ultimately show False using r \<open>2 \<le> e\<close> by blast
    qed
  qed
  with r show "is_prime k" by (simp add: is_prime_def)
qed

lemma cross_out_returns:
  assumes "0 < i" and "length p = MAX_N + 1"
  shows "\<exists>q. cross_out i j p = Some q \<and> length q = MAX_N + 1 \<and>
           (\<forall>k \<le> MAX_N. q ! k = (p ! k \<and> \<not> (j \<le> k \<and> i dvd (k - j))))"
  using assms(2)
proof (induction "MAX_N + 1 - j" arbitrary: j p rule: less_induct)
  case less
  show ?case
  proof (cases "j \<le> MAX_N")
    case False
    then show ?thesis
      by (subst cross_out.simps) (use less.prems in auto)
  next
    case True
    have "MAX_N + 1 - (j + i) < MAX_N + 1 - j"
      using True assms(1) by arith
    from less.hyps[OF this, of "p[j := False]"] less.prems
    obtain q where q: "cross_out i (j + i) (p[j := False]) = Some q" "length q = MAX_N + 1"
      "\<forall>k\<le>MAX_N. q ! k = ((p[j := False]) ! k \<and> \<not> (j + i \<le> k \<and> i dvd (k - (j + i))))"
      by auto
    have "q ! k = (p ! k \<and> \<not> (j \<le> k \<and> i dvd (k - j)))" if "k \<le> MAX_N" for k
    proof (cases "k = j")
      case True
      then show ?thesis
        using q(3) that less.prems by simp
    next
      case False
      have eq: "(j + i \<le> k \<and> i dvd (k - (j + i))) = (j \<le> k \<and> i dvd (k - j))"
      proof
        assume a: "j + i \<le> k \<and> i dvd (k - (j + i))"
        then obtain t where t: "k - (j + i) = i * t" by (auto simp: dvd_def)
        with a have "k - j = i * t + i" by arith
        then have "k - j = i * Suc t" by simp
        then have "i dvd (k - j)" by (simp only: dvd_triv_left)
        with a show "j \<le> k \<and> i dvd (k - j)" by simp
      next
        assume a: "j \<le> k \<and> i dvd (k - j)"
        with False have "0 < k - j" by arith
        with a have "i \<le> k - j" by (simp add: dvd_imp_le)
        then have b: "j + i \<le> k" using a by arith
        from a have "i dvd (k - j) - i" by (simp only: dvd_diff_nat dvd_refl)
        moreover have "k - j - i = k - (j + i)" by arith
        ultimately have "i dvd (k - (j + i))" by (simp only:)
        with b show "j + i \<le> k \<and> i dvd (k - (j + i))" by simp
      qed
      from q(3) that
      have 1: "q ! k = ((p[j := False]) ! k \<and> \<not> (j + i \<le> k \<and> i dvd (k - (j + i))))"
        by blast
      have 2: "(p[j := False]) ! k = p ! k"
        using False by simp
      show ?thesis
        unfolding 1 2 eq ..
    qed
    with q(1,2) True show ?thesis
      by (subst cross_out.simps) simp
  qed
qed

lemma square_le_imp_less:
  assumes "d * d \<le> k" and "k < i * (i::nat)"
  shows "d < i"
proof (rule ccontr)
  assume "\<not> d < i"
  then have "i * i \<le> d * d" by (simp add: mult_le_mono)
  with assms show False by arith
qed

lemma dvd_minus_square:
  assumes "i * i \<le> (k::nat)"
  shows "i dvd (k - i * i) = (i dvd k)"
proof
  assume "i dvd (k - i * i)"
  then show "i dvd k"
    using dvd_diffD[of i k "i * i"] assms by simp
next
  assume "i dvd k"
  then show "i dvd (k - i * i)"
    by (rule dvd_diff_nat) simp
qed

lemma sieve_step_marked:
  assumes "length p = MAX_N + 1" and "2 \<le> i"
    and inv: "\<forall>k \<le> MAX_N. p ! k = (2 \<le> k \<and> (\<forall>d. 2 \<le> d \<and> d < i \<and> d * d \<le> k \<longrightarrow> \<not> d dvd k))"
  shows "\<exists>q. cross_out i (i * i) p = Some q \<and> length q = MAX_N + 1 \<and>
     (\<forall>k \<le> MAX_N. q ! k = (2 \<le> k \<and> (\<forall>d. 2 \<le> d \<and> d < i + 1 \<and> d * d \<le> k \<longrightarrow> \<not> d dvd k)))"
proof -
  from assms(2) have "0 < i" by simp
  from cross_out_returns[OF this assms(1), of "i * i"]
  obtain q where q: "cross_out i (i * i) p = Some q" "length q = MAX_N + 1"
    "\<forall>k\<le>MAX_N. q ! k = (p ! k \<and> \<not> (i * i \<le> k \<and> i dvd (k - i * i)))"
    by blast
  have "q ! k = (2 \<le> k \<and> (\<forall>d. 2 \<le> d \<and> d < i + 1 \<and> d * d \<le> k \<longrightarrow> \<not> d dvd k))"
    if k: "k \<le> MAX_N" for k
  proof -
    have 1: "q ! k = (p ! k \<and> \<not> (i * i \<le> k \<and> i dvd k))"
      using q(3) k dvd_minus_square[of i k] by auto
    have 2: "p ! k = (2 \<le> k \<and> (\<forall>d. 2 \<le> d \<and> d < i \<and> d * d \<le> k \<longrightarrow> \<not> d dvd k))"
      using inv k by blast
    have 3: "(\<forall>d. 2 \<le> d \<and> d < i + 1 \<and> d * d \<le> k \<longrightarrow> \<not> d dvd k)
           = ((\<forall>d. 2 \<le> d \<and> d < i \<and> d * d \<le> k \<longrightarrow> \<not> d dvd k) \<and> \<not> (i * i \<le> k \<and> i dvd k))"
      using assms(2) by (auto simp: less_Suc_eq)
    show ?thesis
      unfolding 1 2 3 by blast
  qed
  with q(1,2) show ?thesis by blast
qed

lemma sieve_step_skipped:
  assumes "length p = MAX_N + 1" and "2 \<le> i" and "i \<le> MAX_N" and "\<not> p ! i"
    and inv: "\<forall>k \<le> MAX_N. p ! k = (2 \<le> k \<and> (\<forall>d. 2 \<le> d \<and> d < i \<and> d * d \<le> k \<longrightarrow> \<not> d dvd k))"
  shows "\<forall>k \<le> MAX_N. p ! k = (2 \<le> k \<and> (\<forall>d. 2 \<le> d \<and> d < i + 1 \<and> d * d \<le> k \<longrightarrow> \<not> d dvd k))"
proof (intro allI impI)
  fix k
  assume k: "k \<le> MAX_N"
  from inv assms(2,3,4) obtain d where d: "2 \<le> d" "d < i" "d * d \<le> i" "d dvd i"
    by blast
  have covered: "\<exists>d'. 2 \<le> d' \<and> d' < i \<and> d' * d' \<le> k \<and> d' dvd k" if "i * i \<le> k" "i dvd k"
  proof -
    have "i \<le> i * i" by simp
    with d(3) that(1) have "d * d \<le> k" by arith
    moreover have "d dvd k" using d(4) that(2) by (rule dvd_trans)
    ultimately show ?thesis using d(1,2) by blast
  qed
  have 2: "p ! k = (2 \<le> k \<and> (\<forall>d. 2 \<le> d \<and> d < i \<and> d * d \<le> k \<longrightarrow> \<not> d dvd k))"
    using inv k by blast
  have 3: "(\<forall>d. 2 \<le> d \<and> d < i + 1 \<and> d * d \<le> k \<longrightarrow> \<not> d dvd k)
         = ((\<forall>d. 2 \<le> d \<and> d < i \<and> d * d \<le> k \<longrightarrow> \<not> d dvd k) \<and> \<not> (i * i \<le> k \<and> i dvd k))"
    using assms(2) by (auto simp: less_Suc_eq)
  show "p ! k = (2 \<le> k \<and> (\<forall>d. 2 \<le> d \<and> d < i + 1 \<and> d * d \<le> k \<longrightarrow> \<not> d dvd k))"
    unfolding 2 3 using covered by blast
qed

lemma sieve_loop_returns:
  assumes "2 \<le> i" and "length p = MAX_N + 1"
    and "\<forall>k \<le> MAX_N. p ! k = (2 \<le> k \<and> (\<forall>d. 2 \<le> d \<and> d < i \<and> d * d \<le> k \<longrightarrow> \<not> d dvd k))"
  shows "\<exists>q. sieve_loop i p = Some q \<and> length q = MAX_N + 1 \<and> (\<forall>k \<le> MAX_N. q ! k = is_prime k)"
  using assms
proof (induction "MAX_N + 1 - i" arbitrary: i p rule: less_induct)
  case less
  show ?case
  proof (cases "i * i \<le> MAX_N")
    case False
    have "p ! k = is_prime k" if k: "k \<le> MAX_N" for k
    proof -
      have "d < i" if "d * d \<le> k" for d
        using that k False by (intro square_le_imp_less[of d k i]) simp_all
      then have "(\<forall>d. 2 \<le> d \<and> d < i \<and> d * d \<le> k \<longrightarrow> \<not> d dvd k)
               = (\<forall>d. 2 \<le> d \<and> d * d \<le> k \<longrightarrow> \<not> d dvd k)"
        by blast
      with less.prems(3) k show ?thesis
        unfolding is_prime_sqrt by simp
    qed
    with False less.prems(2) show ?thesis
      by (subst sieve_loop.simps) simp
  next
    case True
    have "i \<le> i * i" by simp
    with True have iN: "i \<le> MAX_N" by arith
    then have dec: "MAX_N + 1 - (i + 1) < MAX_N + 1 - i" by arith
    have "\<exists>p'. (if truthy_at p i then cross_out i (i * i) p else Some p) = Some p'
            \<and> length p' = MAX_N + 1
            \<and> (\<forall>k \<le> MAX_N. p' ! k = (2 \<le> k \<and> (\<forall>d. 2 \<le> d \<and> d < i + 1 \<and> d * d \<le> k \<longrightarrow> \<not> d dvd k)))"
    proof (cases "truthy_at p i")
      case True
      then show ?thesis
        using sieve_step_marked[OF less.prems(2,1,3)] by simp
    next
      case False
      then have "\<not> p ! i"
        using iN less.prems(2) by (simp add: truthy_at_def)
      from sieve_step_skipped[OF less.prems(2,1) iN this less.prems(3)] False less.prems(2)
      show ?thesis by simp
    qed
    then obtain p' where p': "(if truthy_at p i then cross_out i (i * i) p else Some p) = Some p'"
      "length p' = MAX_N + 1"
      "\<forall>k \<le> MAX_N. p' ! k = (2 \<le> k \<and> (\<forall>d. 2 \<le> d \<and> d < i + 1 \<and> d * d \<le> k \<longrightarrow> \<not> d dvd k))"
      by blast
    have "2 \<le> i + 1" using less.prems(1) by simp
    from less.hyps[OF dec this p'(2,3)]
    obtain q where q: "sieve_loop (i + 1) p' = Some q" "length q = MAX_N + 1"
      "\<forall>k \<le> MAX_N. q ! k = is_prime k"
      by blast
    have "sieve_loop i p = Some q"
      by (subst sieve_loop.simps) (simp only: True if_True p'(1) Option.bind.simps q(1))
    with q(2,3) show ?thesis by blast
  qed
qed

lemma IS_PRIME_init_returns: "IS_PRIME_init = Some IS_PRIME"
  and IS_PRIME_length: "length IS_PRIME = MAX_N + 1"
  and IS_PRIME_correct: "k \<le> MAX_N \<Longrightarrow> IS_PRIME ! k = is_prime k"
proof -
  let ?p = "(replicate (MAX_N + 1) True)[1 := False, 0 := False]"
  have len: "length ?p = MAX_N + 1" by simp
  have "?p ! k = (2 \<le> k \<and> (\<forall>d. 2 \<le> d \<and> d < 2 \<and> d * d \<le> k \<longrightarrow> \<not> d dvd k))"
    if "k \<le> MAX_N" for k
  proof -
    have "?p ! k = (2 \<le> k)"
      using that by (cases "k = 0"; cases "k = 1") (auto simp: nth_list_update)
    then show ?thesis by auto
  qed
  then have "\<forall>k \<le> MAX_N. ?p ! k = (2 \<le> k \<and> (\<forall>d. 2 \<le> d \<and> d < 2 \<and> d * d \<le> k \<longrightarrow> \<not> d dvd k))"
    by blast
  from sieve_loop_returns[OF _ len this]
  obtain q where q: "sieve_loop 2 ?p = Some q" "length q = MAX_N + 1"
    "\<forall>k \<le> MAX_N. q ! k = is_prime k"
    by auto
  then have "IS_PRIME = q"
    by (simp add: IS_PRIME_def IS_PRIME_init_def)
  with q show "IS_PRIME_init = Some IS_PRIME" "length IS_PRIME = MAX_N + 1"
    "k \<le> MAX_N \<Longrightarrow> IS_PRIME ! k = is_prime k"
    by (simp_all add: IS_PRIME_init_def)
qed

lemma truthy_at_IS_PRIME: "truthy_at IS_PRIME k = (k \<le> MAX_N \<and> is_prime k)"
  using IS_PRIME_correct[of k] by (auto simp: truthy_at_def IS_PRIME_length)

lemma primes_upto_0: "primes_upto 0 = 0"
  by (simp add: primes_upto_def is_prime_def)

lemma primes_upto_Suc:
  "primes_upto (Suc m) = primes_upto m + (if is_prime (Suc m) then 1 else 0)"
proof (cases "is_prime (Suc m)")
  case True
  then have "{p \<in> {0..Suc m}. is_prime p} = insert (Suc m) {p \<in> {0..m}. is_prime p}"
    by (auto simp: le_Suc_eq)
  moreover have "card (insert (Suc m) {p \<in> {0..m}. is_prime p})
               = Suc (card {p \<in> {0..m}. is_prime p})"
    by (rule card_insert_disjoint) simp_all
  ultimately show ?thesis
    using True by (simp add: primes_upto_def)
next
  case False
  then have "{p \<in> {0..Suc m}. is_prime p} = {p \<in> {0..m}. is_prime p}"
    by (auto simp: le_Suc_eq)
  with False show ?thesis
    by (simp add: primes_upto_def)
qed

lemma count_loop_correct:
  assumes "1 \<le> i" and "length c = MAX_N + 1"
    and "\<forall>k < i. k \<le> MAX_N \<longrightarrow> c ! k = primes_upto k"
  shows "length (count_loop i c) = MAX_N + 1
       \<and> (\<forall>k \<le> MAX_N. count_loop i c ! k = primes_upto k)"
  using assms
proof (induction i c rule: count_loop.induct)
  case (1 i c)
  show ?case
  proof (cases "i \<le> MAX_N")
    case False
    with "1.prems" show ?thesis
      by (subst count_loop.simps, subst (2) count_loop.simps) auto
  next
    case True
    let ?c = "c[i := c ! (i - 1) + (if truthy_at IS_PRIME i then 1 else 0)]"
    from "1.prems"(1) obtain m where m: "i = Suc m" by (cases i) auto
    have prev: "c ! (i - 1) = primes_upto m"
      using "1.prems"(3) True m by simp
    have new: "?c ! i = primes_upto i"
      using True "1.prems"(2) prev m
      by (simp add: primes_upto_Suc truthy_at_IS_PRIME)
    have inv: "\<forall>k < i + 1. k \<le> MAX_N \<longrightarrow> ?c ! k = primes_upto k"
    proof (intro allI impI)
      fix k
      assume k: "k < i + 1" "k \<le> MAX_N"
      show "?c ! k = primes_upto k"
      proof (cases "k = i")
        case True
        with new show ?thesis by simp
      next
        case False
        with k "1.prems"(3) show ?thesis by simp
      qed
    qed
    have "length ?c = MAX_N + 1" using "1.prems"(2) by simp
    from "1.IH"[OF True _ this inv] True show ?thesis
      by (subst count_loop.simps, subst (2) count_loop.simps) simp
  qed
qed

lemma PRIME_COUNT_length: "length PRIME_COUNT = MAX_N + 1"
  and PRIME_COUNT_correct: "k \<le> MAX_N \<Longrightarrow> PRIME_COUNT ! k = primes_upto k"
proof -
  have "\<forall>k < 1. k \<le> MAX_N \<longrightarrow> replicate (MAX_N + 1) (0::nat) ! k = primes_upto k"
    by (simp add: primes_upto_0)
  from count_loop_correct[OF _ _ this]
  show "length PRIME_COUNT = MAX_N + 1" "k \<le> MAX_N \<Longrightarrow> PRIME_COUNT ! k = primes_upto k"
    by (simp_all add: PRIME_COUNT_def)
qed

lemma js_index_PRIME_COUNT:
  "js_index PRIME_COUNT (int a) = (if a \<le> MAX_N then Some (primes_upto a) else None)"
  by (simp add: js_index_def PRIME_COUNT_length PRIME_COUNT_correct)

lemma primes_upto_small: "primes_upto 5 = 3" "primes_upto 3 = 2"
  by code_simp+

lemma is_prime_1693: "is_prime 1693"
  unfolding is_prime_sqrt
proof (intro conjI allI impI)
  show "2 \<le> (1693::nat)" by simp
next
  fix d :: nat
  assume d: "2 \<le> d \<and> d * d \<le> 1693"
  then have "d < 42"
    using square_le_imp_less[of d 1693 42] by simp
  with d have "d \<in> {2..<42}" by simp
  moreover have "\<forall>d \<in> set [2..<42]. \<not> d dvd (1693::nat)" by simp
  then have "\<forall>d \<in> {2..<42}. \<not> d dvd (1693::nat)" by (simp only: atLeastLessThan_upt)
  ultimately show "\<not> d dvd 1693" by blast
qed

text \<open>
  Claim C7. For every \<open>n\<close> of magnitude at most \<open>MAX_N\<close>, \<open>isTransparent n\<close> holds
  exactly when the magnitude exceeds 1 and the count of primes up to it is odd; and for
  every \<open>n\<close>, \<open>isTransparent (-n) = isTransparent n\<close>.
\<close>

theorem isTransparent_prime_count_parity:
  "(nat \<bar>n\<bar> \<le> MAX_N \<longrightarrow> isTransparent n = (1 < \<bar>n\<bar> \<and> odd (primes_upto (nat \<bar>n\<bar>))))
     \<and> isTransparent (- n) = isTransparent n"
  by (simp add: isTransparent_def js_index_PRIME_COUNT odd_iff_mod_2_eq_one)

theorem isTransparent_prime_count_parity_witness:
  "nat \<bar>5\<bar> \<le> MAX_N \<and> isTransparent 5 \<and> isTransparent (- 5) \<and> (1::int) < \<bar>5\<bar>
     \<and> odd (primes_upto (nat \<bar>5\<bar>)) \<and> \<not> isTransparent 3"
  using isTransparent_prime_count_parity[of 5] isTransparent_prime_count_parity[of 3]
  by (simp add: MAX_N_def primes_upto_small)

section \<open>Factorization\<close>

lemma bump_new: "p \<notin> fst ` set f \<Longrightarrow> bump p f = f @ [(p, 1)]"
  by (induction f) auto

lemma bump_last: "p \<notin> fst ` set f \<Longrightarrow> bump p (f @ [(p, e)]) = f @ [(p, e + 1)]"
  by (induction f) auto

lemma bump_with_exponent:
  "p \<notin> fst ` set f \<Longrightarrow> bump p (with_exponent p e f) = with_exponent p (e + 1) f"
  by (simp add: with_exponent_def bump_new bump_last)

lemma divide_out_returns:
  assumes "2 \<le> p" and "0 < m" and "p \<notin> fst ` set f"
  shows "\<exists>e m'. divide_out p (with_exponent p e0 f) m = Some (with_exponent p (e0 + e) f, m')
           \<and> m = p ^ e * m' \<and> \<not> p dvd m' \<and> 0 < m'"
  using assms(2)
proof (induction m arbitrary: e0 rule: less_induct)
  case (less m)
  show ?case
  proof (cases "m mod p = 0")
    case False
    then have "\<not> p dvd m" by (simp add: dvd_eq_mod_eq_0)
    moreover have "divide_out p (with_exponent p e0 f) m = Some (with_exponent p (e0 + 0) f, m)"
      by (subst divide_out.simps) (simp add: False)
    ultimately show ?thesis
      using less.prems by (intro exI[of _ 0] exI[of _ m]) simp
  next
    case True
    then have "p dvd m" by (simp add: dvd_eq_mod_eq_0)
    then have m: "m = p * (m div p)" by simp
    with less.prems have pos: "0 < m div p" by (cases "m div p = 0") auto
    have "m div p < m" using assms(1) less.prems by simp
    from less.IH[OF this pos, of "e0 + 1"]
    obtain e m' where r: "divide_out p (with_exponent p (e0 + 1) f) (m div p)
        = Some (with_exponent p (e0 + 1 + e) f, m')"
      "m div p = p ^ e * m'" "\<not> p dvd m'" "0 < m'"
      by blast
    have "divide_out p (with_exponent p e0 f) m = Some (with_exponent p (e0 + Suc e) f, m')"
      using r(1) by (subst divide_out.simps) (simp add: True bump_with_exponent[OF assms(3)])
    moreover have "m = p ^ Suc e * m'"
      using m r(2) by simp
    ultimately show ?thesis
      using r(3,4) by blast
  qed
qed

lemma factors_prod_simps:
  "factors_prod [] = 1"
  "factors_prod (f @ g) = factors_prod f * factors_prod g"
  "factors_prod [(p, e)] = p ^ e"
  "factors_prod ((p, e) # f) = p ^ e * factors_prod f"
  by (simp_all add: factors_prod_def)

lemma factors_prod_with_exponent: "factors_prod (with_exponent p e f) = factors_prod f * p ^ e"
  by (simp add: with_exponent_def factors_prod_simps)

lemma prime_factors_map_snoc:
  assumes "prime_factors_map f" and "q \<notin> fst ` set f" and "is_prime q" and "0 < e"
  shows "prime_factors_map (f @ [(q, e)])"
  using assms by (auto simp: prime_factors_map_def)

text \<open>A number without a divisor in \<open>2..<p\<close> that \<open>p\<close> divides makes \<open>p\<close> prime.\<close>

lemma least_divisor_prime:
  assumes "2 \<le> p" and "p dvd m" and "\<forall>d. 2 \<le> d \<and> d < p \<longrightarrow> \<not> d dvd m"
  shows "is_prime p"
proof -
  have "\<not> d dvd p" if "d \<in> {2..<p}" for d
  proof
    assume "d dvd p"
    then have "d dvd m" using assms(2) by (rule dvd_trans)
    with assms(3) that show False by simp
  qed
  with assms(1) show ?thesis by (simp add: is_prime_def)
qed

lemma trial_loop_returns:
  assumes "2 \<le> p" and "0 < m" and "\<forall>k \<in> fst ` set f. k < p"
    and "\<forall>d. 2 \<le> d \<and> d < p \<longrightarrow> \<not> d dvd m" and "prime_factors_map f"
  shows "\<exists>f' m'. trial_loop p f m = Some (f', m') \<and> prime_factors_map f'
           \<and> factors_prod f' * m' = factors_prod f * m
           \<and> (m' = 1 \<or> (is_prime m' \<and> m' \<notin> fst ` set f'))"
  using assms
proof (induction "m + 1 - p" arbitrary: p m f rule: less_induct)
  case less
  show ?case
  proof (cases "p * p \<le> m")
    case False
    have "m = 1 \<or> (is_prime m \<and> m \<notin> fst ` set f)"
    proof (cases "m = 1")
      case True
      then show ?thesis by simp
    next
      case m1: False
      with less.prems(2) have m2: "2 \<le> m" by arith
      have "\<not> d dvd m" if "2 \<le> d" "d * d \<le> m" for d
      proof -
        have "d < p" using that(2) False by (intro square_le_imp_less[of d m p]) simp_all
        with less.prems(4) that(1) show ?thesis by blast
      qed
      with m2 have "is_prime m" unfolding is_prime_sqrt by blast
      moreover have "\<not> m < p" using less.prems(4) m2 by auto
      then have "m \<notin> fst ` set f" using less.prems(3) by blast
      ultimately show ?thesis by blast
    qed
    moreover have "trial_loop p f m = Some (f, m)"
      by (subst trial_loop.simps) (simp add: False)
    ultimately show ?thesis using less.prems(5) by blast
  next
    case True
    have "p \<le> p * p" by simp
    with True have pm: "p \<le> m" by arith
    have fresh: "p \<notin> fst ` set f" using less.prems(3) by blast
    from divide_out_returns[OF less.prems(1,2) fresh, of 0]
    obtain e m1 where d: "divide_out p f m = Some (with_exponent p e f, m1)"
      "m = p ^ e * m1" "\<not> p dvd m1" "0 < m1"
      by (auto simp: with_exponent_def)
    have m1m: "m1 dvd m" using d(2) by simp
    then have "m1 \<le> m" using less.prems(2) by (rule dvd_imp_le)
    with pm have dec: "m1 + 1 - (p + 1) < m + 1 - p" by arith
    have keys: "\<forall>k \<in> fst ` set (with_exponent p e f). k < p + 1"
      using less.prems(3) by (auto simp: with_exponent_def less_Suc_eq)
    have nodiv: "\<forall>d. 2 \<le> d \<and> d < p + 1 \<longrightarrow> \<not> d dvd m1"
    proof (intro allI impI)
      fix d
      assume a: "2 \<le> d \<and> d < p + 1"
      show "\<not> d dvd m1"
      proof (cases "d = p")
        case True
        with d(3) show ?thesis by simp
      next
        case False
        with a have "\<not> d dvd m" using less.prems(4) by simp
        then show ?thesis using m1m dvd_trans by blast
      qed
    qed
    have good: "prime_factors_map (with_exponent p e f)"
    proof (cases "e = 0")
      case True
      with less.prems(5) show ?thesis by (simp add: with_exponent_def)
    next
      case False
      then have "p dvd m" using d(2) by (cases e) simp_all
      from least_divisor_prime[OF less.prems(1) this less.prems(4)] False
      show ?thesis
        by (simp add: with_exponent_def prime_factors_map_snoc[OF less.prems(5) fresh])
    qed
    have "2 \<le> p + 1" using less.prems(1) by simp
    from less.hyps[OF dec this d(4) keys nodiv good]
    obtain f' m' where r: "trial_loop (p + 1) (with_exponent p e f) m1 = Some (f', m')"
      "prime_factors_map f'" "factors_prod f' * m' = factors_prod (with_exponent p e f) * m1"
      "m' = 1 \<or> (is_prime m' \<and> m' \<notin> fst ` set f')"
      by blast
    have "trial_loop p f m = Some (f', m')"
      using r(1) by (subst trial_loop.simps) (simp add: True d(1))
    moreover have "factors_prod f' * m' = factors_prod f * m"
      using r(3) d(2) by (simp add: factors_prod_with_exponent)
    ultimately show ?thesis using r(2,4) by blast
  qed
qed

lemma getFactorization_small: "nat \<bar>n\<bar> < 2 \<Longrightarrow> getFactorization n = Some []"
  by (simp add: getFactorization_def)

lemma getFactorization_returns:
  assumes "2 \<le> nat \<bar>n\<bar>"
  shows "\<exists>f. getFactorization n = Some f \<and> prime_factors_map f \<and> factors_prod f = nat \<bar>n\<bar>"
proof -
  let ?a = "nat \<bar>n\<bar>"
  have "\<exists>f' m'. trial_loop 2 [] ?a = Some (f', m') \<and> prime_factors_map f'
           \<and> factors_prod f' * m' = factors_prod [] * ?a
           \<and> (m' = 1 \<or> (is_prime m' \<and> m' \<notin> fst ` set f'))"
    using assms by (intro trial_loop_returns) (auto simp: prime_factors_map_def)
  then obtain f' m' where r: "trial_loop 2 [] ?a = Some (f', m')" "prime_factors_map f'"
    "factors_prod f' * m' = ?a" "m' = 1 \<or> (is_prime m' \<and> m' \<notin> fst ` set f')"
    by (auto simp: factors_prod_simps)
  show ?thesis
  proof (cases "m' = 1")
    case True
    with r assms show ?thesis
      by (simp add: getFactorization_def)
  next
    case False
    with r(4) have p: "is_prime m'" "m' \<notin> fst ` set f'" by blast+
    then have "1 < m'" by (simp add: is_prime_def)
    then have "getFactorization n = Some (f' @ [(m', 1)])"
      using assms r(1) by (simp add: getFactorization_def bump_new[OF p(2)])
    moreover have "prime_factors_map (f' @ [(m', 1)])"
      using r(2) p by (intro prime_factors_map_snoc) simp_all
    moreover have "factors_prod (f' @ [(m', 1)]) = ?a"
      using r(3) by (simp add: factors_prod_simps)
    ultimately show ?thesis by blast
  qed
qed

lemma is_prime_ge_2: "is_prime p \<Longrightarrow> 2 \<le> p"
  by (simp add: is_prime_def)

lemma is_prime_divisors:
  assumes "is_prime p" and "d dvd p"
  shows "d = 1 \<or> d = p"
proof (rule ccontr)
  assume n: "\<not> (d = 1 \<or> d = p)"
  from assms have "0 < p" by (simp add: is_prime_def)
  with assms(2) have "d \<le> p" by (simp add: dvd_imp_le)
  moreover have "d \<noteq> 0" using assms(2) \<open>0 < p\<close> by auto
  ultimately have "d \<in> {2..<p}" using n by auto
  with assms show False by (simp add: is_prime_def)
qed

lemma prime_dvd_mult:
  assumes "is_prime p" and "p dvd a * b"
  shows "p dvd a \<or> p dvd b"
proof (cases "p dvd a")
  case True
  then show ?thesis ..
next
  case False
  have "coprime p a"
  proof (rule coprimeI)
    fix c
    assume "c dvd p" and "c dvd a"
    with is_prime_divisors[OF assms(1)] False show "is_unit c" by auto
  qed
  then have "p dvd b * a \<longleftrightarrow> p dvd b" by (rule coprime_dvd_mult_left_iff)
  with assms(2) show ?thesis by (simp add: mult.commute)
qed

lemma prime_dvd_power:
  assumes "is_prime p" and "p dvd a ^ k"
  shows "p dvd a"
  using assms(2)
proof (induction k)
  case 0
  then have "p = 1" by simp
  with assms(1) show ?case by (simp add: is_prime_def)
next
  case (Suc k)
  then have "p dvd a * a ^ k" by simp
  from prime_dvd_mult[OF assms(1) this] Suc.IH show ?case by blast
qed

lemma prime_dvd_prime:
  assumes "is_prime p" and "is_prime r" and "p dvd r"
  shows "p = r"
  using is_prime_divisors[OF assms(2,3)] assms(1) by (auto simp: is_prime_def)

lemma prime_dvd_prime_power:
  "is_prime p \<Longrightarrow> is_prime r \<Longrightarrow> p dvd r ^ k \<Longrightarrow> p = r"
  using prime_dvd_power prime_dvd_prime by blast

lemma prime_power_not_prime:
  assumes "2 \<le> p" and "2 \<le> q"
  shows "\<not> is_prime (p ^ q)"
proof -
  have "p ^ 1 < p ^ q" using assms by (intro power_strict_increasing) simp_all
  then have "p \<in> {2..<p ^ q}" using assms(1) by simp
  moreover have "p dvd p ^ q" using assms(2) by (intro dvd_power) simp
  ultimately show ?thesis unfolding is_prime_def by blast
qed

lemma prime_product_not_prime:
  assumes "2 \<le> p" and "2 \<le> r"
  shows "\<not> is_prime (p * r)"
proof -
  have "p * 1 < p * r" using assms by (intro mult_strict_left_mono) simp_all
  then have "p \<in> {2..<p * r}" using assms(1) by simp
  moreover have "p dvd p * r" by simp
  ultimately show ?thesis unfolding is_prime_def by blast
qed

lemma key_dvd_factors_prod: "(k, e) \<in> set f \<Longrightarrow> 0 < e \<Longrightarrow> k dvd factors_prod f"
proof (induction f)
  case Nil
  then show ?case by simp
next
  case (Cons x f)
  obtain k' e' where x: "x = (k', e')" by (cases x)
  show ?case
  proof (cases "(k, e) = x")
    case True
    with x Cons.prems(2) have "k dvd k ^ e" by (intro dvd_power) simp
    with True x show ?thesis by (simp add: factors_prod_simps)
  next
    case False
    with Cons have "k dvd factors_prod f" by simp
    with x show ?thesis by (simp add: factors_prod_simps)
  qed
qed

lemma prime_factors_map_entry:
  "prime_factors_map f \<Longrightarrow> (k, e) \<in> set f \<Longrightarrow> is_prime k \<and> 0 < e"
  by (auto simp: prime_factors_map_def)

text \<open>Uniqueness, as far as the colourless rule needs it.\<close>

lemma factors_of_prime_power:
  assumes "prime_factors_map f" and "factors_prod f = p ^ q" and "is_prime p" and "0 < q"
  shows "f = [(p, q)]"
proof -
  have keys: "k = p" if "(k, e) \<in> set f" for k e
  proof -
    from prime_factors_map_entry[OF assms(1) that] have "is_prime k" "0 < e" by simp_all
    with key_dvd_factors_prod[OF that] assms(2) have "k dvd p ^ q" by simp
    with \<open>is_prime k\<close> assms(3) show ?thesis by (rule prime_dvd_prime_power)
  qed
  have "2 \<le> p" using assms(3) by (rule is_prime_ge_2)
  then have "1 < p" by simp
  then have "1 < p ^ q" using assms(4) by (rule one_less_power)
  with assms(2) have "f \<noteq> []" by (auto simp: factors_prod_simps)
  then obtain k e g where f: "f = (k, e) # g" by (cases f) auto
  have "g = []"
  proof (cases g)
    case Nil
    then show ?thesis .
  next
    case (Cons y h)
    obtain k' e' where y: "y = (k', e')" by (cases y)
    from keys[of k e] keys[of k' e'] f Cons y have "k = k'" by simp
    with assms(1) f Cons y show ?thesis by (simp add: prime_factors_map_def)
  qed
  with f keys[of k e] have fk: "f = [(p, e)]" by simp
  with assms(2) have "p ^ e = p ^ q" by (simp add: factors_prod_simps)
  with \<open>2 \<le> p\<close> have "e = q" by simp
  with fk show ?thesis by simp
qed

lemma two_prime_powers_left:
  assumes "is_prime p" and "is_prime r" and "p \<noteq> r" and "0 < a"
    and "p ^ a * r ^ b = p * r"
  shows "a = 1"
proof (rule ccontr)
  assume "a \<noteq> 1"
  with assms(4) obtain c where c: "a = Suc (Suc c)" by (cases a; cases "a - 1") auto
  have "0 < p" using assms(1) by (simp add: is_prime_def)
  from assms(5) c have "p * (p * p ^ c * r ^ b) = p * r" by (simp add: mult.assoc)
  with \<open>0 < p\<close> have "p * p ^ c * r ^ b = r" by simp
  then have "p dvd r" by (metis dvd_triv_left mult.assoc)
  with assms(1,2,3) show False using prime_dvd_prime by blast
qed

lemma two_prime_powers:
  assumes "is_prime p" and "is_prime r" and "p \<noteq> r" and "0 < a" and "0 < b"
    and "p ^ a * r ^ b = p * r"
  shows "a = 1 \<and> b = 1"
proof -
  have "a = 1" using assms(1,2,3,4,6) by (rule two_prime_powers_left)
  moreover have "r ^ b * p ^ a = r * p" using assms(6) by (simp add: mult.commute)
  with assms have "b = 1" by (intro two_prime_powers_left[of r p b a]) auto
  ultimately show ?thesis ..
qed

lemma factors_of_two_primes:
  assumes "prime_factors_map f" and "factors_prod f = p * r"
    and "is_prime p" and "is_prime r" and "p \<noteq> r"
  shows "length f = 2 \<and> sum_list (map snd f) = 2"
proof -
  have keys: "k = p \<or> k = r" if "(k, e) \<in> set f" for k e
  proof -
    from prime_factors_map_entry[OF assms(1) that] have k: "is_prime k" "0 < e" by simp_all
    with key_dvd_factors_prod[OF that] assms(2) have "k dvd p * r" by simp
    from prime_dvd_mult[OF k(1) this] k(1) assms(3,4) show ?thesis
      using prime_dvd_prime by blast
  qed
  have p2: "2 \<le> p" "2 \<le> r" using assms(3,4) by (simp_all add: is_prime_def)
  have "set (map fst f) \<subseteq> {p, r}"
  proof
    fix k
    assume "k \<in> set (map fst f)"
    then obtain e where "(k, e) \<in> set f" by auto
    from keys[OF this] show "k \<in> {p, r}" by simp
  qed
  then have "card (set (map fst f)) \<le> card {p, r}" by (intro card_mono) simp_all
  moreover have "card (set (map fst f)) = length f"
  proof -
    have "distinct (map fst f)" using assms(1) by (simp add: prime_factors_map_def)
    then have "card (set (map fst f)) = length (map fst f)" by (rule distinct_card)
    then show ?thesis by (simp only: length_map)
  qed
  ultimately have len: "length f \<le> 2" using assms(5) by simp
  show ?thesis
  proof (cases f)
    case Nil
    with assms(2) p2 show ?thesis by (cases p; cases r) (auto simp: factors_prod_simps)
  next
    case (Cons x g)
    obtain k e where x: "x = (k, e)" by (cases x)
    from prime_factors_map_entry[OF assms(1), of k e] Cons x have ke: "is_prime k" "0 < e"
      by simp_all
    show ?thesis
    proof (cases g)
      case Nil
      with Cons x assms(2) have eq: "k ^ e = p * r" by (simp add: factors_prod_simps)
      have "p dvd k ^ e" "r dvd k ^ e" unfolding eq by simp_all
      then have "p = k" "r = k"
        using assms(3,4) ke(1) prime_dvd_prime_power by blast+
      with assms(5) show ?thesis by simp
    next
      case g: (Cons y h)
      obtain k' e' where y: "y = (k', e')" by (cases y)
      from len Cons g have h: "h = []" by simp
      from prime_factors_map_entry[OF assms(1), of k' e'] Cons g y
      have ke': "is_prime k'" "0 < e'" by simp_all
      have ne: "k \<noteq> k'" using assms(1) Cons g x y by (simp add: prime_factors_map_def)
      have eq: "k ^ e * k' ^ e' = p * r"
        using assms(2) Cons g x y h by (simp add: factors_prod_simps)
      from keys[of k e] keys[of k' e'] Cons g x y ne
      consider "k = p" "k' = r" | "k = r" "k' = p" by auto
      then have "e = 1 \<and> e' = 1"
      proof cases
        case 1
        with eq ke ke' assms(3,4,5) show ?thesis
          by (intro two_prime_powers[of p r]) simp_all
      next
        case 2
        with eq have "r ^ e * p ^ e' = r * p" by (simp add: mult.commute)
        with 2 ke ke' assms(3,4,5) show ?thesis
          by (intro two_prime_powers[of r p]) auto
      qed
      with Cons g x y h show ?thesis by simp
    qed
  qed
qed

section \<open>The colourless rule\<close>

lemma fold_add: "fold (\<lambda>b a. a + b) xs (s::nat) = s + sum_list xs"
  by (induction xs arbitrary: s) simp_all

lemma small_primes: "is_prime 2" "is_prime 3" "is_prime 5" "is_prime 7"
  by code_simp+

lemma exponent_bound:
  assumes "2 \<le> (p::nat)" and "p ^ q < 2 ^ 1024"
  shows "q \<le> MAX_N"
proof -
  have "(2::nat) ^ q \<le> p ^ q" using assms(1) by (intro power_mono) simp_all
  from this assms(2) have "(2::nat) ^ q < 2 ^ 1024" by (rule le_less_trans)
  then have "q < 1024" by (rule power_less_imp_less_exp[rotated]) simp
  then show ?thesis by (simp add: MAX_N_def)
qed

text \<open>The specification's two shapes, read off the factorization the code computes.\<close>

lemma spec_prime_power_shape:
  assumes "prime_factors_map f" and "factors_prod f = a"
  shows "(\<exists>p q. is_prime p \<and> is_prime q \<and> odd q \<and> a = p ^ q)
       = (\<exists>p q. f = [(p, q)] \<and> is_prime q \<and> odd q)"
proof
  assume "\<exists>p q. is_prime p \<and> is_prime q \<and> odd q \<and> a = p ^ q"
  then obtain p q where pq: "is_prime p" "is_prime q" "odd q" "a = p ^ q" by blast
  from pq(2) have "0 < q" by (simp add: is_prime_def)
  from factors_of_prime_power[OF assms(1) _ pq(1) this] assms(2) pq(4)
  have "f = [(p, q)]" by simp
  with pq show "\<exists>p q. f = [(p, q)] \<and> is_prime q \<and> odd q" by blast
next
  assume "\<exists>p q. f = [(p, q)] \<and> is_prime q \<and> odd q"
  then obtain p q where pq: "f = [(p, q)]" "is_prime q" "odd q" by blast
  from prime_factors_map_entry[OF assms(1), of p q] pq(1) have "is_prime p" by simp
  moreover have "a = p ^ q" using assms(2) pq(1) by (simp add: factors_prod_simps)
  ultimately show "\<exists>p q. is_prime p \<and> is_prime q \<and> odd q \<and> a = p ^ q"
    using pq(2,3) by blast
qed

lemma spec_two_primes_shape:
  assumes "prime_factors_map f" and "factors_prod f = a"
  shows "(\<exists>p r. is_prime p \<and> is_prime r \<and> p \<noteq> r \<and> a = p * r)
       = (length f = 2 \<and> sum_list (map snd f) = 2)"
proof
  assume "\<exists>p r. is_prime p \<and> is_prime r \<and> p \<noteq> r \<and> a = p * r"
  then obtain p r where pr: "is_prime p" "is_prime r" "p \<noteq> r" "a = p * r" by blast
  from factors_of_two_primes[OF assms(1) _ pr(1,2,3)] assms(2) pr(4)
  show "length f = 2 \<and> sum_list (map snd f) = 2" by simp
next
  assume s: "length f = 2 \<and> sum_list (map snd f) = 2"
  then obtain x y where "f = [x, y]"
    by (cases f; cases "tl f") auto
  then obtain p e r e' where f: "f = [(p, e), (r, e')]"
    by (cases x; cases y) auto
  from prime_factors_map_entry[OF assms(1), of p e] prime_factors_map_entry[OF assms(1), of r e'] f
  have pe: "is_prime p" "0 < e" "is_prime r" "0 < e'" by simp_all
  from s f have "e + e' = 2" by simp
  with pe have "e = 1" "e' = 1" by arith+
  with assms(2) f have "a = p * r" by (simp add: factors_prod_simps)
  moreover have "p \<noteq> r" using assms(1) f by (simp add: prime_factors_map_def)
  ultimately show "\<exists>p r. is_prime p \<and> is_prime r \<and> p \<noteq> r \<and> a = p * r"
    using pe(1,3) by blast
qed

lemma colorless_spec_factors:
  assumes "prime_factors_map f" and "factors_prod f = a" and "2 \<le> a"
  shows "colorless_spec a
       = (odd a \<and> ((\<exists>p q. f = [(p, q)] \<and> is_prime q \<and> odd q)
                  \<or> (length f = 2 \<and> sum_list (map snd f) = 2)))"
proof -
  have comp: "\<not> is_prime a"
    if "(\<exists>p q. is_prime p \<and> is_prime q \<and> odd q \<and> a = p ^ q)
      \<or> (\<exists>p r. is_prime p \<and> is_prime r \<and> p \<noteq> r \<and> a = p * r)"
    using that
  proof
    assume "\<exists>p q. is_prime p \<and> is_prime q \<and> odd q \<and> a = p ^ q"
    then obtain p q where "is_prime p" "is_prime q" "a = p ^ q" by blast
    then show ?thesis using prime_power_not_prime[of p q] by (simp add: is_prime_ge_2)
  next
    assume "\<exists>p r. is_prime p \<and> is_prime r \<and> p \<noteq> r \<and> a = p * r"
    then obtain p r where "is_prime p" "is_prime r" "a = p * r" by blast
    then show ?thesis using prime_product_not_prime[of p r] by (simp add: is_prime_ge_2)
  qed
  have "colorless_spec a
      = (odd a \<and> ((\<exists>p q. is_prime p \<and> is_prime q \<and> odd q \<and> a = p ^ q)
                 \<or> (\<exists>p r. is_prime p \<and> is_prime r \<and> p \<noteq> r \<and> a = p * r)))"
  proof -
    have n: "a \<notin> {2, 3, 5, 7}" if "\<not> is_prime a"
      using that small_primes by auto
    have "1 < a" using assms(3) by simp
    with comp n show ?thesis
      unfolding colorless_spec_def by blast
  qed
  then show ?thesis
    unfolding spec_prime_power_shape[OF assms(1,2)] spec_two_primes_shape[OF assms(1,2)] .
qed

lemma colorless_specD: "colorless_spec a \<Longrightarrow> 1 < a \<and> odd a \<and> \<not> is_prime a"
  by (simp add: colorless_spec_def)

lemma isColorless_unfold:
  assumes "a = nat \<bar>n\<bar>"
  shows "isColorless n =
     (if a < 2 \<or> truthy_at IS_PRIME a then Some False
      else if a = 2 \<or> a = 3 \<or> a = 5 \<or> a = 7 then Some False
      else if even a then Some False
      else case getFactorization (int a) of None \<Rightarrow> None
        | Some f \<Rightarrow>
            Some (case (if length f = 1
                  then let q = (case map_of f (hd (map fst f)) of Some e \<Rightarrow> e | None \<Rightarrow> 0)
                       in if truthy_at IS_PRIME q \<and> even q then Some False
                          else if truthy_at IS_PRIME q \<and> odd q then Some True
                          else None
                  else None) of
              Some b \<Rightarrow> b
            | None \<Rightarrow> sum_list (map snd f) = 2 \<and> length f = 2))"
  unfolding isColorless_def Let_def assms[symmetric] fold_add
  by (simp add: even_iff_mod_2_eq_zero split: option.splits)

lemma isColorless_correct:
  assumes "nat \<bar>n\<bar> < 2 ^ 1024"
  shows "isColorless n = Some (colorless_spec (nat \<bar>n\<bar>))"
proof -
  define a where "a = nat \<bar>n\<bar>"
  have bound: "a < 2 ^ 1024" using assms by (simp only: a_def)
  consider (small) "a < 2" | (prime) "2 \<le> a" "truthy_at IS_PRIME a"
    | (even) "2 \<le> a" "\<not> truthy_at IS_PRIME a" "even a"
    | (odd) "2 \<le> a" "\<not> truthy_at IS_PRIME a" "odd a"
    by fastforce
  then have "isColorless n = Some (colorless_spec a)"
  proof cases
    case small
    then have "\<not> colorless_spec a" using colorless_specD[of a] by auto
    with small show ?thesis
      unfolding isColorless_unfold[OF a_def] by simp
  next
    case prime
    then have "is_prime a" by (simp add: truthy_at_IS_PRIME)
    then have "\<not> colorless_spec a" using colorless_specD[of a] by blast
    with prime show ?thesis
      unfolding isColorless_unfold[OF a_def] by simp
  next
    case even
    then have "\<not> colorless_spec a" using colorless_specD[of a] by blast
    with even show ?thesis
      unfolding isColorless_unfold[OF a_def] by simp
  next
    case odd
    have abs: "nat \<bar>int a\<bar> = a" by simp
    from getFactorization_returns[of "int a"] odd(1)
    obtain f where f: "getFactorization (int a) = Some f" "prime_factors_map f"
      "factors_prod f = a"
      unfolding abs by auto
    have not2357: "\<not> (a = 2 \<or> a = 3 \<or> a = 5 \<or> a = 7)"
      using odd(2) small_primes by (auto simp: truthy_at_IS_PRIME MAX_N_def)
    have spec: "colorless_spec a
       = ((\<exists>p q. f = [(p, q)] \<and> is_prime q \<and> odd q)
          \<or> (length f = 2 \<and> sum_list (map snd f) = 2))"
      using colorless_spec_factors[OF f(2,3) odd(1)] odd(3) by simp
    have code: "isColorless n =
      Some (case (if length f = 1
                  then let q = (case map_of f (hd (map fst f)) of Some e \<Rightarrow> e | None \<Rightarrow> 0)
                       in if truthy_at IS_PRIME q \<and> even q then Some False
                          else if truthy_at IS_PRIME q \<and> odd q then Some True
                          else None
                  else None) of
              Some b \<Rightarrow> b
            | None \<Rightarrow> sum_list (map snd f) = 2 \<and> length f = 2)"
      unfolding isColorless_unfold[OF a_def] using odd not2357 f(1)
      by simp
    show ?thesis
    proof (cases "length f = 1")
      case False
      then have "\<not> (\<exists>p q. f = [(p, q)] \<and> is_prime q \<and> odd q)" by auto
      with False show ?thesis unfolding code spec by auto
    next
      case True
      then obtain p q where pq: "f = [(p, q)]"
        by (cases f; cases "tl f") auto
      from prime_factors_map_entry[OF f(2), of p q] pq have p: "is_prime p" by simp
      from f(3) pq have "a = p ^ q" by (simp add: factors_prod_simps)
      with bound have "q \<le> MAX_N"
        using exponent_bound[of p q] is_prime_ge_2[OF p] by simp
      then have t: "truthy_at IS_PRIME q = is_prime q" by (simp add: truthy_at_IS_PRIME)
      show ?thesis
        unfolding code spec using pq t by auto
    qed
  qed
  then show ?thesis by (simp only: a_def)
qed

lemma isColorless_returns: "\<exists>b. isColorless n = Some b"
proof -
  define a where "a = nat \<bar>n\<bar>"
  show ?thesis
  proof (cases "2 \<le> a")
    case False
    then show ?thesis
      unfolding isColorless_unfold[OF a_def] by auto
  next
    case True
    then obtain f where "getFactorization (int a) = Some f"
      using getFactorization_returns[of "int a"] by auto
    then show ?thesis
      unfolding isColorless_unfold[OF a_def] by auto
  qed
qed

lemma colorless_spec_examples:
  "colorless_spec 27" "colorless_spec 15" "\<not> colorless_spec 9"
proof -
  have 1: "prime_factors_map [(3, 3)]" "prime_factors_map [(3, 1), (5, 1)]"
    "prime_factors_map [(3, 2)]"
    by (simp_all add: prime_factors_map_def small_primes)
  have 2: "factors_prod [(3, 3)] = 27" "factors_prod [(3, 1), (5, 1)] = 15"
    "factors_prod [(3, 2)] = 9"
    by (simp_all add: factors_prod_def)
  show "colorless_spec 27"
    using colorless_spec_factors[OF 1(1) 2(1)] by (simp add: small_primes)
  show "colorless_spec 15"
    using colorless_spec_factors[OF 1(2) 2(2)] by simp
  show "\<not> colorless_spec 9"
    using colorless_spec_factors[OF 1(3) 2(3)] by simp
qed

text \<open>
  Claim C3. \<open>isColorless n\<close> returns, and returns true exactly when the magnitude of \<open>n\<close>
  is an odd composite, not one of 2, 3, 5, 7, that is either a prime raised to an odd
  prime exponent (so not 9, whose exponent is 2) or the product of two distinct primes;
  for every other integer it returns false. The hypothesis covers every integer a
  JavaScript number can hold (all of them are below \<open>2^1024\<close>); it keeps the exponent
  inside the sieve table.
\<close>

theorem isColorless_characterisation:
  assumes "nat \<bar>n\<bar> < 2 ^ 1024"
  shows "isColorless n = Some (colorless_spec (nat \<bar>n\<bar>))"
  using assms by (rule isColorless_correct)

theorem isColorless_characterisation_witness:
  "nat \<bar>27\<bar> < 2 ^ 1024 \<and> isColorless 27 = Some True \<and> isColorless (- 15) = Some True
     \<and> isColorless 9 = Some False"
  using isColorless_characterisation[of 27] isColorless_characterisation[of "- 15"]
    isColorless_characterisation[of 9]
  by (simp add: colorless_spec_examples)

section \<open>Prime powers\<close>

lemma strip_factor_returns:
  assumes "2 \<le> p" and "0 < m"
  shows "\<exists>m'. strip_factor m p = Some m'"
  using assms(2)
proof (induction m rule: less_induct)
  case (less m)
  show ?case
  proof (cases "m mod p = 0")
    case False
    then show ?thesis by (subst strip_factor.simps) simp
  next
    case True
    then have "p dvd m" by (simp add: dvd_eq_mod_eq_0)
    then have m: "m = p * (m div p)" by simp
    with less.prems have pos: "0 < m div p" by (cases "m div p = 0") auto
    have "m div p < m" using assms(1) less.prems by simp
    from less.IH[OF this pos] True show ?thesis
      by (subst strip_factor.simps) simp
  qed
qed

lemma isPrimePower_loop_returns:
  assumes "2 \<le> p" and "0 < a"
  shows "\<exists>b. isPrimePower_loop a p = Some b"
  using assms
proof (induction a p rule: isPrimePower_loop.induct)
  case (1 a p)
  show ?case
  proof (cases "p \<le> a")
    case False
    then show ?thesis by (subst isPrimePower_loop.simps) auto
  next
    case True
    show ?thesis
    proof (cases "\<not> truthy_at IS_PRIME p \<or> a mod p \<noteq> 0")
      case skip: True
      have "\<exists>b. isPrimePower_loop a (p + 1) = Some b"
      proof (cases "truthy_at IS_PRIME p")
        case False
        from "1.IH"(1)[OF True _ _ "1.prems"(2)] False "1.prems"(1) show ?thesis by simp
      next
        case t: True
        with skip have "a mod p \<noteq> 0" by simp
        from "1.IH"(2)[OF True _ this _ "1.prems"(2)] t "1.prems"(1) show ?thesis by simp
      qed
      with True skip show ?thesis
        by (subst isPrimePower_loop.simps) auto
    next
      case False
      from strip_factor_returns[OF "1.prems"] obtain m' where "strip_factor a p = Some m'"
        by blast
      with True False show ?thesis
        by (subst isPrimePower_loop.simps) auto
    qed
  qed
qed

lemma isPrimePower_returns: "\<exists>b. isPrimePower a = Some b"
  using isPrimePower_loop_returns[of 2 a] by (auto simp: isPrimePower_def)

lemma isPrimePower_loop_no_divisor:
  assumes "\<forall>q. p \<le> q \<and> q \<le> a \<longrightarrow> \<not> (truthy_at IS_PRIME q \<and> a mod q = 0)"
  shows "isPrimePower_loop a p = Some False"
  using assms
proof (induction a p rule: isPrimePower_loop.induct)
  case (1 a p)
  show ?case
  proof (cases "p \<le> a")
    case False
    then show ?thesis by (subst isPrimePower_loop.simps) simp
  next
    case True
    have skip: "\<not> truthy_at IS_PRIME p \<or> a mod p \<noteq> 0"
      using "1.prems"[rule_format, of p] True by simp
    have rest: "\<forall>q. p + 1 \<le> q \<and> q \<le> a \<longrightarrow> \<not> (truthy_at IS_PRIME q \<and> a mod q = 0)"
      using "1.prems" by simp
    have "isPrimePower_loop a (p + 1) = Some False"
    proof (cases "truthy_at IS_PRIME p")
      case False
      from "1.IH"(1)[OF True _ rest] False show ?thesis by simp
    next
      case t: True
      with skip have "a mod p \<noteq> 0" by simp
      from "1.IH"(2)[OF True _ this rest] t show ?thesis by simp
    qed
    with True skip show ?thesis
      by (subst isPrimePower_loop.simps) auto
  qed
qed

lemma isPrimePower_1693: "isPrimePower 1693 = Some False"
proof -
  have "\<not> (truthy_at IS_PRIME q \<and> 1693 mod q = 0)" if "2 \<le> q \<and> q \<le> 1693" for q
  proof
    assume a: "truthy_at IS_PRIME q \<and> 1693 mod q = 0"
    then have "q dvd 1693" by (simp add: dvd_eq_mod_eq_0)
    from is_prime_divisors[OF is_prime_1693 this] that have "q = 1693" by simp
    with a show False by (simp add: truthy_at_IS_PRIME MAX_N_def)
  qed
  then have "\<forall>q. 2 \<le> q \<and> q \<le> 1693 \<longrightarrow> \<not> (truthy_at IS_PRIME q \<and> 1693 mod q = 0)"
    by (intro allI impI)
  then have "isPrimePower_loop 1693 2 = Some False"
    by (rule isPrimePower_loop_no_divisor)
  then show ?thesis by (simp add: isPrimePower_def)
qed

section \<open>Magnitudes beyond the sieve\<close>

lemma chain_range:
  assumes "(if neg then neg_chain c2 c3 c7 b2 b3 b7 else pos_chain c2 c3 c7 b2 b3 b7) = Some c"
  shows "c \<in> {8, 9, 10, 11, c2, c3, c7}"
  using assms by (auto simp: neg_chain_def pos_chain_def Let_def split: if_splits)

lemma getColorInfo_tail:
  assumes "isColorless n = Some cl" and "isPrimePower a = Some pp" and "\<not> truthy_at IS_PRIME a"
  shows "\<exists>k \<in> {3, 4, 15}.
     Option.bind (isColorless n)
       (\<lambda>colorless.
          if colorless then Some (Inr (COLOR_MAP ! 4))
          else if truthy_at IS_PRIME a then Some (Inr (COLOR_MAP ! 2))
          else Option.bind (isPrimePower a)
            (\<lambda>pp. if pp then Some (Inr (COLOR_MAP ! 3))
                   else Some (Inr (COLOR_MAP ! 15)))) = Some (Inr (COLOR_MAP ! k))"
  using assms by simp

lemma getColorInfo_index:
  assumes "a = nat \<bar>n\<bar>" and "2 \<le> a" and "\<not> truthy_at IS_PRIME a"
    and "js_index shifts d = Some (c2, c3, c7)"
  shows "\<exists>k \<in> {3, 4, 8, 9, 10, 11, 12, 13, 14, 15, c2, c3, c7}.
           getColorInfo n d = Some (Inr (COLOR_MAP ! k))"
proof -
  obtain cl where cl: "isColorless n = Some cl" using isColorless_returns by blast
  obtain pp where pp: "isPrimePower a = Some pp" using isPrimePower_returns by blast
  define tail :: "(js_error + color_info) option" where "tail =
      Option.bind (isColorless n)
       (\<lambda>colorless.
          if colorless then Some (Inr (COLOR_MAP ! 4))
          else if truthy_at IS_PRIME a then Some (Inr (COLOR_MAP ! 2))
          else Option.bind (isPrimePower a)
            (\<lambda>pp. if pp then Some (Inr (COLOR_MAP ! 3))
                   else Some (Inr (COLOR_MAP ! 15))))"
  have tail: "\<exists>k \<in> {3, 4, 15}. tail = Some (Inr (COLOR_MAP ! k))"
    unfolding tail_def using getColorInfo_tail[OF cl pp assms(3)] .
  define b2 b3 b5 b7 where "b2 = (a mod 2 = 0)" and "b3 = (a mod 3 = 0)"
    and "b5 = (a mod 5 = 0)" and "b7 = (a mod 7 = 0)"
  define chain where
    "chain = (if n < 0 then neg_chain c2 c3 c7 b2 b3 b7 else pos_chain c2 c3 c7 b2 b3 b7)"
  have a01: "a \<noteq> 0" "a \<noteq> 1" using assms(2) by simp_all
  have unfold: "getColorInfo n d =
      (if b2 \<and> b3 \<and> b5 \<and> b7 then Some (Inr (COLOR_MAP ! 14))
       else if b2 \<and> b5 then Some (Inr (COLOR_MAP ! 13))
       else if b5 then Some (Inr (COLOR_MAP ! 12))
       else case chain of
              Some c \<Rightarrow> Some (Inr (COLOR_MAP ! c))
            | None \<Rightarrow>
                if a = 2 then Some (Inr (COLOR_MAP ! c2))
                else if a = 3 then Some (Inr (COLOR_MAP ! c3))
                else if a = 7 then Some (Inr (COLOR_MAP ! c7))
                else tail)"
    unfolding getColorInfo_def Let_def assms(1)[symmetric] tail_def chain_def
      b2_def b3_def b5_def b7_def
    using a01 assms(4) by (simp only: if_False option.case prod.case)
  show ?thesis
  proof (cases b5)
    case True
    then show ?thesis unfolding unfold by simp
  next
    case b5: False
    show ?thesis
    proof (cases chain)
      case (Some c)
      from chain_range[OF Some[unfolded chain_def]] Some b5 show ?thesis
        unfolding unfold by auto
    next
      case None
      with tail b5 show ?thesis
        unfolding unfold by auto
    qed
  qed
qed


lemma COLOR_MAP_length: "length COLOR_MAP = 16"
  by (simp add: COLOR_MAP_def)

lemma COLOR_MAP_not_Prime:
  assumes "k \<in> {3, 4, 5, 6, 7, 8, 9, 10, 11, 12, 13, 14, 15}"
  shows "COLOR_MAP ! k \<in> set COLOR_MAP \<and> label (COLOR_MAP ! k) \<noteq> ''Prime''"
proof -
  from assms have "k < length COLOR_MAP" by (auto simp: COLOR_MAP_length)
  then have "COLOR_MAP ! k \<in> set COLOR_MAP" by (rule nth_mem)
  moreover have "label (COLOR_MAP ! k) \<noteq> ''Prime''"
    using assms by (auto simp: COLOR_MAP_labels)
  ultimately show ?thesis ..
qed

lemma isTransparent_out_of_range: "MAX_N < nat \<bar>n\<bar> \<Longrightarrow> \<not> isTransparent n"
  by (simp add: isTransparent_def js_index_PRIME_COUNT)

lemma out_of_range_default:
  assumes "MAX_N < nat \<bar>n\<bar>" and "0 \<le> d" and "d \<le> 5"
  shows "\<not> isTransparent n
       \<and> (\<exists>c. getColorInfo n d = Some (Inr c) \<and> c \<in> set COLOR_MAP \<and> label c \<noteq> ''Prime'')"
proof -
  define a where "a = nat \<bar>n\<bar>"
  have big: "MAX_N < a" using assms(1) by (simp only: a_def)
  then have a2: "2 \<le> a" by (simp add: MAX_N_def)
  have np: "\<not> truthy_at IS_PRIME a" using big by (simp add: truthy_at_IS_PRIME)
  from js_index_shifts_valid[OF assms(2,3)]
  obtain c2 c3 c7 where s: "js_index shifts d = Some (c2, c3, c7)" "{c2, c3, c7} \<subseteq> {5, 6, 7}"
    by blast
  from getColorInfo_index[OF a_def a2 np s(1)]
  obtain k where k: "k \<in> {3, 4, 8, 9, 10, 11, 12, 13, 14, 15, c2, c3, c7}"
    "getColorInfo n d = Some (Inr (COLOR_MAP ! k))"
    by blast
  from k(1) s(2) have "k \<in> {3, 4, 5, 6, 7, 8, 9, 10, 11, 12, 13, 14, 15}" by auto
  from COLOR_MAP_not_Prime[OF this] k(2) isTransparent_out_of_range[OF assms(1)]
  show ?thesis by blast
qed

lemma isColorless_1693: "isColorless 1693 = Some False"
proof -
  have "\<not> colorless_spec 1693"
    using colorless_specD[of 1693] is_prime_1693 by blast
  moreover have "nat \<bar>1693\<bar> < 2 ^ 1024" by simp
  ultimately show ?thesis
    using isColorless_correct[of 1693] by simp
qed

lemma getColorInfo_1693: "getColorInfo 1693 0 = Some (Inr (COLOR_MAP ! 15))"
proof -
  have "\<not> truthy_at IS_PRIME 1693"
    by (simp add: truthy_at_IS_PRIME MAX_N_def)
  then show ?thesis
    unfolding getColorInfo_def
    by (simp add: js_index_shifts_0 pos_chain_def isColorless_1693 isPrimePower_1693)
qed

text \<open>
  Claim C6, as stated: for every \<open>n\<close> of magnitude above \<open>MAX_N\<close> the classification
  (colour label, transparency) fails with an explicit out-of-range error instead of
  returning a default. For the prime 1693 the code returns the colour "Composite" and
  the transparency \<open>false\<close>, and raises nothing.
\<close>

theorem out_of_range_error_counterexample:
  "MAX_N < nat \<bar>1693\<bar> \<and> is_prime 1693
     \<and> map_option (map_sum id label) (getColorInfo 1693 0) = Some (Inr ''Composite'')
     \<and> \<not> isTransparent 1693"
  using isTransparent_out_of_range[of 1693]
  by (simp add: getColorInfo_1693 COLOR_MAP_labels is_prime_1693 MAX_N_def)

text \<open>
  Claim C6, amended. For every \<open>n\<close> of magnitude above \<open>MAX_N\<close> and every dimension in
  0..5 no error is raised: \<open>isTransparent n\<close> is false, and \<open>getColorInfo\<close> returns
  one of the entries of \<open>COLOR_MAP\<close>, never the one labelled "Prime", since every
  sieve lookup at such a magnitude reads \<open>undefined\<close>.
\<close>

theorem out_of_range_behaviour:
  assumes "MAX_N < nat \<bar>n\<bar>" and "0 \<le> d" and "d \<le> 5"
  shows "\<not> isTransparent n
       \<and> (\<exists>c. getColorInfo n d = Some (Inr c) \<and> c \<in> set COLOR_MAP \<and> label c \<noteq> ''Prime'')"
  using assms by (rule out_of_range_default)

theorem out_of_range_behaviour_witness:
  "MAX_N < nat \<bar>- 1681\<bar> \<and> (0::int) \<le> 0 \<and> (0::int) \<le> 5 \<and> \<not> isTransparent (- 1681)
     \<and> (\<exists>c. getColorInfo (- 1681) 0 = Some (Inr c) \<and> c \<in> set COLOR_MAP
            \<and> label c \<noteq> ''Prime'')"
  using out_of_range_behaviour[of "- 1681" 0] by (simp add: MAX_N_def)

end
